theory Spec2Isabelle
  imports Main "HOL-Library.Char_ord" "HOL-Library.List_Lexorder"
begin

section \<open>Bytes, files and integers\<close>

text \<open>
  A Python \<^verbatim>\<open>bytes\<close> value is a list of 8-bit characters, and so is a path: the
  tool converts between the two with the single-byte ``ANSI'' codec, which is the
  identity on this representation.  Python integers are unbounded; sizes, offsets and
  counts are never negative and are natural numbers here, the symbols of the packed
  string table are integers because the source subtracts from them.
\<close>

type_synonym bytes = string

datatype error =
    StructError            \<comment> \<open>\<^verbatim>\<open>struct.pack\<close>: a value outside \<open>0 .. 2^32 - 1\<close>\<close>
  | OSError                \<comment> \<open>\<^verbatim>\<open>open\<close>, \<^verbatim>\<open>os.makedirs\<close> or a write failed\<close>
  | ZlibError              \<comment> \<open>\<^verbatim>\<open>zlib.decompress\<close> rejected its input\<close>
  | PyException string     \<comment> \<open>\<^verbatim>\<open>raise Exception(msg)\<close>\<close>

definition zeros :: "nat \<Rightarrow> bytes" where
  \<comment> \<open>\<^verbatim>\<open>bytes(n)\<close>\<close>
  "zeros n = replicate n (CHR 0x00)"

definition fread :: "bytes \<Rightarrow> nat \<Rightarrow> nat \<Rightarrow> bytes" where
  \<comment> \<open>\<^verbatim>\<open>file.read(n)\<close> with the file position at \<open>pos\<close>: the bytes that are there, fewer
      than \<open>n\<close> (or none) at the end of the file.  The position advances by the length
      of the result.\<close>
  "fread f pos n = take n (drop pos f)"

definition from_bytes :: "bytes \<Rightarrow> nat" where
  \<comment> \<open>\<^verbatim>\<open>int.from_bytes(b, "little")\<close>; the empty string gives 0\<close>
  "from_bytes b = foldr (\<lambda>c acc. of_char c + 256 * acc) b 0"

definition pack_I :: "nat \<Rightarrow> bytes option" where
  \<comment> \<open>\<^verbatim>\<open>struct.pack("<I", n)\<close>, \<open>None\<close> where it raises \<^verbatim>\<open>struct.error\<close>\<close>
  "pack_I n =
     (if n < 2 ^ 32
      then Some [char_of n, char_of (n div 2 ^ 8), char_of (n div 2 ^ 16), char_of (n div 2 ^ 24)]
      else None)"

fun struct_pack :: "nat list \<Rightarrow> bytes option" where
  \<comment> \<open>\<^verbatim>\<open>struct.pack("<I...I", *ns)\<close>\<close>
  "struct_pack [] = Some []"
| "struct_pack (n # ns) =
     (case pack_I n of
        None \<Rightarrow> None
      | Some b \<Rightarrow> (case struct_pack ns of None \<Rightarrow> None | Some bs \<Rightarrow> Some (b @ bs)))"

definition Padding :: "nat \<Rightarrow> nat \<Rightarrow> bool \<Rightarrow> nat" where
  "Padding num pad restOnly =
     (if restOnly
      then (if num mod pad = 0 then 0 else pad - num mod pad)
      else (if num mod pad = 0 then num else num + pad - num mod pad))"

definition endswith :: "string \<Rightarrow> string \<Rightarrow> bool" where
  "endswith s suffix = (length suffix \<le> length s \<and> drop (length s - length suffix) s = suffix)"

definition replace_char :: "char \<Rightarrow> char \<Rightarrow> string \<Rightarrow> string" where
  \<comment> \<open>\<^verbatim>\<open>s.replace(a, b)\<close> for one-character strings\<close>
  "replace_char a b s = map (\<lambda>c. if c = a then b else c) s"

fun split_sep :: "char \<Rightarrow> string \<Rightarrow> string list" where
  \<comment> \<open>\<^verbatim>\<open>s.split(c)\<close>: never empty, \<^verbatim>\<open>"".split("/") == [""]\<close>\<close>
  "split_sep c [] = [[]]"
| "split_sep c (x # xs) =
     (if x = c then [] # split_sep c xs
      else (x # hd (split_sep c xs)) # tl (split_sep c xs))"

fun join_sep :: "string \<Rightarrow> string list \<Rightarrow> string" where
  \<comment> \<open>\<^verbatim>\<open>sep.join(xs)\<close>\<close>
  "join_sep sep [] = []"
| "join_sep sep [x] = x"
| "join_sep sep (x # y # ys) = x @ sep @ join_sep sep (y # ys)"

section \<open>Table of contents entries\<close>

record TOCEntry =
  nameOffset :: nat
  fileOffset :: nat
  uncompressedSize :: nat
  compressedSize :: nat
  filepath :: string

definition read_u32 :: "bytes \<Rightarrow> nat \<Rightarrow> nat \<times> nat" where
  \<comment> \<open>\<^verbatim>\<open>int.from_bytes(file.read(4), "little")\<close>: the value and the new file position\<close>
  "read_u32 f pos = (let b = fread f pos 4 in (from_bytes b, pos + length b))"

definition TOCEntry_init :: "bytes \<Rightarrow> nat \<Rightarrow> TOCEntry \<times> nat" where
  \<comment> \<open>\<^verbatim>\<open>TOCEntry.__init__\<close>: four reads from the current position\<close>
  "TOCEntry_init f pos =
     (let (no, p1) = read_u32 f pos;
          (fo, p2) = read_u32 f p1;
          (us, p3) = read_u32 f p2;
          (cs, p4) = read_u32 f p3
      in (\<lparr>nameOffset = no, fileOffset = fo, uncompressedSize = us, compressedSize = cs,
           filepath = []\<rparr>, p4))"

fun read_entries :: "bytes \<Rightarrow> nat \<Rightarrow> nat \<Rightarrow> TOCEntry list" where
  \<comment> \<open>\<^verbatim>\<open>[TOCEntry(file) for amount in range(numFiles)]\<close>\<close>
  "read_entries f pos 0 = []"
| "read_entries f pos (Suc n) =
     (let (e, pos') = TOCEntry_init f pos in e # read_entries f pos' n)"

definition isCompressed :: "TOCEntry \<Rightarrow> bool" where
  "isCompressed e = (uncompressedSize e \<noteq> compressedSize e)"

definition getDir :: "TOCEntry \<Rightarrow> string" where
  "getDir e =
     (let path = split_sep (CHR ''/'') (filepath e)
      in if length path > 1 then join_sep ''/'' (butlast path) else [])"

definition isDir :: "TOCEntry \<Rightarrow> bool" where
  "isDir e = endswith (filepath e) ''/''"

section \<open>The raw string table\<close>

text \<open>
  The loop of the \<^verbatim>\<open>"DAVE"\<close> branch: it reads one byte at a time and leaves only on
  a zero byte.  At the end of the table \<^verbatim>\<open>read(1)\<close> returns the empty string, which
  is not \<^verbatim>\<open>b"\x00"\<close>, so the loop goes on and appends nothing: it does not return.
  The result \<open>None\<close> stands for that.
\<close>

partial_function (option) raw_loop :: "bytes \<Rightarrow> nat \<Rightarrow> string \<Rightarrow> string option" where
  "raw_loop stringTable pos path =
     (let byte = fread stringTable pos 1
      in if byte = [CHR 0x00] then Some path
         else raw_loop stringTable (pos + length byte) (path @ byte))"

declare raw_loop.simps [code]

fun raw_names :: "bytes \<Rightarrow> TOCEntry list \<Rightarrow> TOCEntry list option" where
  "raw_names stringTable [] = Some []"
| "raw_names stringTable (e # es) =
     (case raw_loop stringTable (nameOffset e) (filepath e) of
        None \<Rightarrow> None
      | Some p \<Rightarrow>
          (case raw_names stringTable es of
             None \<Rightarrow> None
           | Some es' \<Rightarrow> Some (e\<lparr>filepath := p\<rparr> # es')))"

section \<open>The packed string table\<close>

definition BASE64CHARSET :: string where
  "BASE64CHARSET = CHR 0x00 # '' #$()-./?0123456789_abcdefghijklmnopqrstuvwxyz~''"

definition dave_value :: "bytes \<Rightarrow> nat \<Rightarrow> nat \<Rightarrow> nat" where
  \<comment> \<open>\<^verbatim>\<open>int.from_bytes(stringTable.read(1), "little") if remainingBits != 6 else 0\<close>\<close>
  "dave_value stringTable pos remainingBits =
     (if remainingBits \<noteq> 6 then from_bytes (fread stringTable pos 1) else 0)"

definition dave_pos :: "bytes \<Rightarrow> nat \<Rightarrow> nat \<Rightarrow> nat" where
  \<comment> \<open>the position of the table after that read (no read when 6 bits remain)\<close>
  "dave_pos stringTable pos remainingBits =
     (if remainingBits \<noteq> 6 then pos + length (fread stringTable pos 1) else pos)"

definition dave_group :: "nat \<Rightarrow> nat \<Rightarrow> nat \<Rightarrow> nat" where
  \<comment> \<open>the value appended to \<^verbatim>\<open>temp\<close>\<close>
  "dave_group v remainingBits lastValue =
     or (push_bit remainingBits (and v (2 ^ (6 - remainingBits) - 1)))
        (drop_bit (8 - remainingBits) lastValue)"

definition dave_bits :: "nat \<Rightarrow> nat" where
  \<comment> \<open>\<^verbatim>\<open>0 if remainingBits == 6 else 8 - (6-remainingBits)\<close>\<close>
  "dave_bits remainingBits = (if remainingBits = 6 then 0 else 8 - (6 - remainingBits))"

function dave_loop :: "bytes \<Rightarrow> nat \<Rightarrow> nat \<Rightarrow> nat \<Rightarrow> nat list \<Rightarrow> nat list" where
  "dave_loop stringTable pos remainingBits lastValue temp =
     (let v = dave_value stringTable pos remainingBits;
          temp' = temp @ [dave_group v remainingBits lastValue]
      in if last temp' = 0 then temp'
         else dave_loop stringTable (dave_pos stringTable pos remainingBits)
                (dave_bits remainingBits) v temp')"
  by pat_completeness auto

text \<open>
  The loop always returns: it goes on only after a non-zero group, and past the end of
  the table every byte read is 0, so at most two more groups can be non-zero.
\<close>

termination dave_loop
proof (relation "measure (\<lambda>(t, pos, rb, l, temp).
    6 * (length t - pos) + (if rb = 6 then 2 else 0) + (if l \<noteq> 0 then 3 else 0))", goal_cases)
  case 1
  show ?case by simp
next
  case (2 t pos rb l temp v temp')
  then have nz: "dave_group v rb l \<noteq> 0" by simp
  have carry: "l \<noteq> 0" if "v = 0"
  proof
    assume "l = 0"
    with that have "dave_group v rb l = 0" by (simp add: dave_group_def)
    with nz show False by simp
  qed
  show ?case
  proof (cases "rb = 6")
    case True
    then have "v = 0" using 2 by (simp add: dave_value_def)
    with True carry show ?thesis by (simp add: dave_pos_def dave_bits_def)
  next
    case False
    show ?thesis
    proof (cases "pos < length t")
      case True
      then have "length (fread t pos 1) = 1" by (simp add: fread_def)
      with False have "dave_pos t pos rb = Suc pos" by (simp add: dave_pos_def)
      moreover have "6 * (length t - Suc pos) + 6 = 6 * (length t - pos)" using True by simp
      ultimately show ?thesis by (simp del: mult_Suc_right)
    next
      case at_end: False
      then have "v = 0" using 2 False by (simp add: dave_value_def fread_def from_bytes_def)
      with False at_end carry show ?thesis by (simp add: dave_pos_def dave_bits_def fread_def)
    qed
  qed
qed

declare dave_loop.simps [simp del]

text \<open>
  One pass of the loop body seen as a transition of the state (position in the table,
  \<^verbatim>\<open>remainingBits\<close>, \<^verbatim>\<open>lastValue\<close>), and the group that pass appends.
\<close>

definition dave_step :: "bytes \<Rightarrow> nat \<times> nat \<times> nat \<Rightarrow> nat \<times> nat \<times> nat" where
  "dave_step stringTable s =
     (case s of (pos, remainingBits, lastValue) \<Rightarrow>
        (dave_pos stringTable pos remainingBits, dave_bits remainingBits,
         dave_value stringTable pos remainingBits))"

definition dave_emit :: "bytes \<Rightarrow> nat \<times> nat \<times> nat \<Rightarrow> nat" where
  "dave_emit stringTable s =
     (case s of (pos, remainingBits, lastValue) \<Rightarrow>
        dave_group (dave_value stringTable pos remainingBits) remainingBits lastValue)"

definition py_prefix :: "string \<Rightarrow> int \<Rightarrow> string" where
  \<comment> \<open>the Python slice \<^verbatim>\<open>s[:n]\<close>: a negative \<open>n\<close> counts from the end\<close>
  "py_prefix s n = (if 0 \<le> n then take (nat n) s else take (length s - nat (- n)) s)"

definition literal :: "nat list \<Rightarrow> string" where
  \<comment> \<open>\<^verbatim>\<open>"".join(BASE64CHARSET[char] for char in cs if char < 48)\<close>\<close>
  "literal cs = map (\<lambda>c. BASE64CHARSET ! c) (filter (\<lambda>c. c < 48) cs)"

definition dave_path :: "string \<Rightarrow> nat list \<Rightarrow> string" where
  "dave_path prevName temp =
     (if temp ! 0 < 56 then literal (butlast temp)
      else py_prefix prevName ((int (temp ! 0) - 0x38) + push_bit 3 (int (temp ! 1) - 0x20))
           @ literal (drop 2 (butlast temp)))"

fun dave_names :: "bytes \<Rightarrow> string \<Rightarrow> TOCEntry list \<Rightarrow> TOCEntry list" where
  "dave_names stringTable prevName [] = []"
| "dave_names stringTable prevName (e # es) =
     (let temp = dave_loop stringTable (nameOffset e) 0 0 [];
          p = dave_path prevName temp
      in e\<lparr>filepath := p\<rparr> # dave_names stringTable p es)"

section \<open>Extraction\<close>

text \<open>
  The file system of the destination and the inflater are outside the program.  The
  file system is any state \<open>'w\<close> with the five operations the extraction loop calls;
  each operation that can raise returns the exception or the new state.  The inflater
  is \<^verbatim>\<open>zlib.decompress(data, wbits=-15)\<close>, \<open>None\<close> where it raises \<^verbatim>\<open>zlib.error\<close>.
  A run of the loop ends in the state it reached together with the exception that
  stopped it, if any.
\<close>

record 'w os_ops =
  path_exists :: "'w \<Rightarrow> string \<Rightarrow> bool"             \<comment> \<open>\<^verbatim>\<open>os.path.exists(p)\<close>\<close>
  path_join :: "string \<Rightarrow> string \<Rightarrow> string"          \<comment> \<open>\<^verbatim>\<open>os.path.join(a, b)\<close>\<close>
  makedirs :: "string \<Rightarrow> 'w \<Rightarrow> error + 'w"            \<comment> \<open>\<^verbatim>\<open>os.makedirs(p, exist_ok=True)\<close>\<close>
  open_wb :: "string \<Rightarrow> 'w \<Rightarrow> error + 'w"             \<comment> \<open>\<^verbatim>\<open>open(p, "wb")\<close>\<close>
  write_file :: "string \<Rightarrow> bytes \<Rightarrow> 'w \<Rightarrow> error + 'w" \<comment> \<open>\<^verbatim>\<open>f.write(data)\<close> and the close of \<open>f\<close>\<close>

definition backslashes :: "string \<Rightarrow> string" where
  \<comment> \<open>\<^verbatim>\<open>.replace("/", "\\")\<close>\<close>
  "backslashes s = replace_char (CHR ''/'') (CHR 0x5C) s"

fun extract_all :: "'w os_ops \<Rightarrow> (bytes \<Rightarrow> bytes option) \<Rightarrow> bytes \<Rightarrow> string \<Rightarrow>
    TOCEntry list \<Rightarrow> 'w \<Rightarrow> error option \<times> 'w" where
  "extract_all os inflate file outputDirectory [] w = (None, w)"
| "extract_all os inflate file outputDirectory (entry # rest) w =
     (if \<not> path_exists os w outputDirectory
      then (Some (PyException ''Output directory does not exist''), w)
      else
        let filepath' = backslashes (path_join os outputDirectory (filepath entry));
            dirpath = backslashes (path_join os outputDirectory (getDir entry))
        in case (if \<not> path_exists os w dirpath then makedirs os dirpath w else Inr w) of
             Inl e \<Rightarrow> (Some e, w)
           | Inr w1 \<Rightarrow>
               if isDir entry then extract_all os inflate file outputDirectory rest w1
               else
                 (case open_wb os filepath' w1 of
                    Inl e \<Rightarrow> (Some e, w1)
                  | Inr w2 \<Rightarrow>
                      let payload = fread file (fileOffset entry) (compressedSize entry)
                      in case (if isCompressed entry
                               then (case inflate payload of
                                       None \<Rightarrow> Inl ZlibError
                                     | Some d \<Rightarrow> write_file os filepath' d w2)
                               else write_file os filepath' payload w2) of
                           Inl e \<Rightarrow> (Some e, w2)
                         | Inr w3 \<Rightarrow> extract_all os inflate file outputDirectory rest w3))"

definition unpack_entries :: "bytes \<Rightarrow> TOCEntry list option" where
  \<comment> \<open>the first half of \<^verbatim>\<open>unpack\<close>: header, table of contents and names;
      \<open>None\<close> when the name loop of the raw branch does not return\<close>
  "unpack_entries file =
     (let magic = fread file 0 4;
          (numFiles, p1) = read_u32 file (length magic);
          (tocLength, p2) = read_u32 file p1;
          (stringTableLength, p3) = read_u32 file p2;
          fileEntries = read_entries file 0x800 numFiles;
          stringTable = fread file (0x800 + tocLength) stringTableLength
      in if magic = ''Dave'' then Some (dave_names stringTable [] fileEntries)
         else if magic = ''DAVE'' then raw_names stringTable fileEntries
         else Some fileEntries)"

definition unpack :: "'w os_ops \<Rightarrow> (bytes \<Rightarrow> bytes option) \<Rightarrow> bytes \<Rightarrow> string \<Rightarrow> 'w \<Rightarrow>
    (error option \<times> 'w) option" where
  "unpack os inflate file outputDirectory w =
     (case unpack_entries file of
        None \<Rightarrow> None
      | Some fileEntries \<Rightarrow> Some (extract_all os inflate file outputDirectory fileEntries w))"

text \<open>
  An in-memory destination for the examples: the directories that exist, and the files
  with their contents.  \<open>path_join\<close> is \<^verbatim>\<open>os.path.join\<close> for a directory name
  without a trailing separator and a relative second path.
\<close>

type_synonym mem_fs = "string list \<times> (string \<times> bytes) list"

definition mem_os :: "mem_fs os_ops" where
  "mem_os =
     \<lparr>path_exists = (\<lambda>w p. p \<in> set (fst w) \<or> p \<in> set (map fst (snd w))),
      path_join = (\<lambda>a b. a @ [CHR 0x5C] @ b),
      makedirs = (\<lambda>p w. Inr (p # fst w, snd w)),
      open_wb = (\<lambda>p w. if p \<in> set (fst w) then Inl OSError
                       else Inr (fst w, (p, []) # filter (\<lambda>e. fst e \<noteq> p) (snd w))),
      write_file = (\<lambda>p d w. Inr (fst w, map (\<lambda>e. if fst e = p then (p, snd e @ d) else e)
                                            (snd w)))\<rparr>"

section \<open>Packing\<close>

text \<open>
  \<^verbatim>\<open>os.walk\<close> yields triples of a directory, its subdirectories and its files; the
  asset source is the function \<open>src\<close> that gives the bytes of the file
  \<^verbatim>\<open>os.path.join(assetPath, path)\<close> for a path of the string table, \<open>None\<close> when
  \<^verbatim>\<open>open\<close> raises.  The deflater is \<^verbatim>\<open>zlib.compressobj(-1, zlib.DEFLATED, -15)\<close>,
  applied to the whole file and flushed.
\<close>

definition walk_names :: "string \<Rightarrow> string \<times> string list \<times> string list \<Rightarrow> string list" where
  "walk_names assetPath t =
     (case t of (root0, dirs, files) \<Rightarrow>
        let root = replace_char (CHR 0x5C) (CHR ''/'') (drop (length assetPath) root0)
        in map (\<lambda>dir. if root \<noteq> [] then root @ ''/'' @ dir @ ''/'' else dir @ ''/'') dirs
           @ map (\<lambda>filepath. if root \<noteq> [] then root @ ''/'' @ filepath
                   else replace_char (CHR 0x5C) (CHR ''/'')
                          (replace_char (CHR 0x5C) (CHR ''/'') filepath)) files)"

definition walk_table :: "string \<Rightarrow> (string \<times> string list \<times> string list) list \<Rightarrow> string list" where
  \<comment> \<open>the string table before it is sorted\<close>
  "walk_table assetPath walk = concat (map (walk_names assetPath) walk)"

definition payload_block :: "bytes \<Rightarrow> bytes" where
  \<comment> \<open>what one entry adds to \<^verbatim>\<open>filesBinary\<close>\<close>
  "payload_block data = data @ zeros (Padding (length data) 0x800 True)"

definition entry_data :: "(string \<Rightarrow> bytes option) \<Rightarrow> (bytes \<Rightarrow> bytes) \<Rightarrow> bool \<Rightarrow> string \<Rightarrow>
    error + (bytes \<times> nat \<times> nat)" where
  \<comment> \<open>\<^verbatim>\<open>data\<close>, \<^verbatim>\<open>uncompressedSize\<close> and \<^verbatim>\<open>compressedSize\<close> of one path\<close>
  "entry_data src deflate compress path =
     (if \<not> endswith path ''/''
      then (case src path of
              None \<Rightarrow> Inl OSError
            | Some d \<Rightarrow>
                if compress then Inr (deflate d, length d, length (deflate d))
                else Inr (d, length d, length d))
      else Inr ([], 0, 0))"

definition entry_payload :: "(string \<Rightarrow> bytes option) \<Rightarrow> (bytes \<Rightarrow> bytes) \<Rightarrow> bool \<Rightarrow> string \<Rightarrow>
    bytes" where
  \<comment> \<open>the \<^verbatim>\<open>data\<close> of one path, empty where reading it fails\<close>
  "entry_payload src deflate compress path =
     (case entry_data src deflate compress path of Inl e \<Rightarrow> [] | Inr (d, u, c) \<Rightarrow> d)"

fun pack_loop :: "(string \<Rightarrow> bytes option) \<Rightarrow> (bytes \<Rightarrow> bytes) \<Rightarrow> bool \<Rightarrow> string list \<Rightarrow>
    nat \<Rightarrow> nat \<Rightarrow> bytes \<Rightarrow> bytes \<Rightarrow> error + (bytes \<times> bytes)" where
  "pack_loop src deflate compress [] nameOffset' estimatedFileOffset TOCBinary filesBinary =
     Inr (TOCBinary, filesBinary)"
| "pack_loop src deflate compress (path # rest) nameOffset' estimatedFileOffset TOCBinary filesBinary =
     (case entry_data src deflate compress path of
        Inl e \<Rightarrow> Inl e
      | Inr (data, uncompressedSize', compressedSize') \<Rightarrow>
          (case struct_pack [nameOffset', estimatedFileOffset, uncompressedSize', compressedSize'] of
             None \<Rightarrow> Inl StructError
           | Some r \<Rightarrow>
               pack_loop src deflate compress rest
                 (nameOffset' + (length path + 1))
                 (estimatedFileOffset + Padding (length data) 0x800 False)
                 (TOCBinary @ r) (filesBinary @ payload_block data)))"

fun toc_model :: "(string \<Rightarrow> bytes option) \<Rightarrow> (bytes \<Rightarrow> bytes) \<Rightarrow> bool \<Rightarrow> string list \<Rightarrow>
    nat \<Rightarrow> nat \<Rightarrow> TOCEntry list" where
  \<comment> \<open>the records \<^verbatim>\<open>pack\<close> is expected to write for the paths, as \<^verbatim>\<open>unpack\<close> reads
      them: name offsets and file offsets accumulate from the given start values\<close>
  "toc_model src deflate compress [] no fo = []"
| "toc_model src deflate compress (path # rest) no fo =
     \<lparr>nameOffset = no, fileOffset = fo,
      uncompressedSize = (case entry_data src deflate compress path of
                            Inl e \<Rightarrow> 0 | Inr (d, u, c) \<Rightarrow> u),
      compressedSize = (case entry_data src deflate compress path of
                          Inl e \<Rightarrow> 0 | Inr (d, u, c) \<Rightarrow> c),
      filepath = []\<rparr>
     # toc_model src deflate compress rest (no + (length path + 1))
         (fo + Padding (length (entry_payload src deflate compress path)) 0x800 False)"

record archive_parts =
  Header :: bytes
  TOCBinary :: bytes
  stringTableBinary :: bytes
  filesBinary :: bytes

definition pack_parts :: "(string \<Rightarrow> bytes option) \<Rightarrow> (bytes \<Rightarrow> bytes) \<Rightarrow> string list \<Rightarrow> bool \<Rightarrow>
    error + archive_parts" where
  \<comment> \<open>\<^verbatim>\<open>pack\<close> up to the four buffers; \<open>names\<close> is the string table as the walk left it\<close>
  "pack_parts src deflate names compress =
     (let stringTable = sort names;
          estimatedTOCSize = Padding (length stringTable * 16) 0x800 False;
          estimatedStringTableSize =
            Padding (sum_list (map (\<lambda>path. length path + 1) stringTable)) 0x800 False
      in case struct_pack [length stringTable, estimatedTOCSize, estimatedStringTableSize] of
           None \<Rightarrow> Inl StructError
         | Some h \<Rightarrow>
             (case pack_loop src deflate compress stringTable 0
                     (0x800 + estimatedTOCSize + estimatedStringTableSize) [] [] of
                Inl e \<Rightarrow> Inl e
              | Inr (toc, files) \<Rightarrow>
                  Inr \<lparr>Header = ''DAVE'' @ h @ zeros 0x7F0, TOCBinary = toc,
                       stringTableBinary = join_sep [CHR 0x00] stringTable,
                       filesBinary = files\<rparr>))"

definition write_archive :: "archive_parts \<Rightarrow> bytes" where
  \<comment> \<open>the four writes to the output file\<close>
  "write_archive a =
     Header a
     @ (TOCBinary a @ zeros (Padding (length (TOCBinary a)) 0x800 True))
     @ (stringTableBinary a @ zeros (Padding (length (stringTableBinary a)) 0x800 True))
     @ filesBinary a"

definition pack :: "(string \<Rightarrow> bytes option) \<Rightarrow> (bytes \<Rightarrow> bytes) \<Rightarrow> string list \<Rightarrow> bool \<Rightarrow>
    error + bytes" where
  "pack src deflate names compress =
     (case pack_parts src deflate names compress of
        Inl e \<Rightarrow> Inl e
      | Inr a \<Rightarrow> Inr (write_archive a))"

section \<open>An asset tree whose names join to a multiple of the block size\<close>

text \<open>
  Nine files in the root of the asset tree: eight names of 227 characters and one of
  224, which with their eight separators join to \<open>0x800\<close> bytes.  The names are in
  sorted order.  In the first asset source the first file holds the two bytes
  \<open>hi\<close> and the other files are empty; in the second every file is empty.
  \<open>decoded_tree\<close> is the list of names with the two payload bytes appended to the last.
\<close>

definition long_name :: "char \<Rightarrow> nat \<Rightarrow> string" where
  "long_name c n = c # replicate n (CHR ''a'')"

definition aligned_tree :: "string list" where
  "aligned_tree = map (\<lambda>c. long_name c 226) ''12345678'' @ [long_name (CHR ''9'') 223]"

definition aligned_src :: "string \<Rightarrow> bytes option" where
  "aligned_src path = (if path = long_name (CHR ''1'') 226 then Some ''hi'' else Some [])"

definition decoded_tree :: "string list" where
  "decoded_tree = map (\<lambda>c. long_name c 226) ''12345678'' @ [long_name (CHR ''9'') 223 @ ''hi'']"

definition empty_src :: "string \<Rightarrow> bytes option" where
  "empty_src path = Some []"

section \<open>Theorems\<close>

lemma Padding_restOnly_lt: "0 < pad \<Longrightarrow> Padding n pad True < pad"
  by (simp add: Padding_def)

lemma Padding_split: "0 < pad \<Longrightarrow> Padding n pad False = n + Padding n pad True"
proof -
  assume "0 < pad"
  then have "n mod pad < pad" by simp
  then show ?thesis by (simp add: Padding_def)
qed

lemma Padding_mod: "Padding n pad False mod pad = 0"
proof (cases "n mod pad = 0")
  case True
  then show ?thesis by (simp add: Padding_def)
next
  case False
  have "n + pad - n mod pad = pad * (n div pad) + pad"
    by (metis Nat.add_diff_assoc2 mod_less_eq_dividend minus_mod_eq_mult_div mult.commute)
  then have "(n + pad - n mod pad) mod pad = 0" by simp
  with False show ?thesis by (simp add: Padding_def)
qed

subsection \<open>Little-endian integers\<close>

lemma from_bytes_Cons: "from_bytes (c # cs) = of_char c + 256 * from_bytes cs"
  by (simp add: from_bytes_def)

lemma from_bytes_Nil: "from_bytes [] = 0"
  by (simp add: from_bytes_def)

lemma le32_digits:
  fixes n :: nat
  assumes "n < 2 ^ 32"
  shows "n mod 256 + 256 * (n div 2 ^ 8 mod 256 + 256 * (n div 2 ^ 16 mod 256
           + 256 * (n div 2 ^ 24 mod 256))) = n"
proof -
  define a where "a = n div 256"
  define b where "b = a div 256"
  define c where "c = b div 256"
  have n: "n = n mod 256 + 256 * a" by (simp add: a_def)
  have a: "a = a mod 256 + 256 * b" by (simp add: b_def)
  have b: "b = b mod 256 + 256 * c" by (simp add: c_def)
  have d8: "n div 2 ^ 8 = a" by (simp add: a_def)
  have d16: "n div 2 ^ 16 = b" by (simp add: a_def b_def div_mult2_eq)
  have d24: "n div 2 ^ 24 = c" by (simp add: a_def b_def c_def div_mult2_eq)
  have "n div 2 ^ 24 < 2 ^ 8"
    by (rule less_mult_imp_div_less) (use assms in simp)
  with d24 have "c < 256" by simp
  then have c: "c mod 256 = c" by simp
  show ?thesis
    unfolding d8 d16 d24 c
    using n a b by presburger
qed

lemma pack_I_Some:
  assumes "pack_I n = Some b"
  shows "from_bytes b = n" and "length b = 4"
proof -
  from assms have lt: "n < 2 ^ 32" by (simp add: pack_I_def split: if_splits)
  with assms have b: "b = [char_of n, char_of (n div 2 ^ 8), char_of (n div 2 ^ 16),
      char_of (n div 2 ^ 24)]"
    by (simp add: pack_I_def)
  show "length b = 4" by (simp add: b)
  have "from_bytes b = n mod 256 + 256 * (n div 2 ^ 8 mod 256 + 256 * (n div 2 ^ 16 mod 256
          + 256 * (n div 2 ^ 24 mod 256)))"
    by (simp only: b from_bytes_Cons from_bytes_Nil of_char_of mult_zero_right add_0_right)
  also have "\<dots> = n" by (rule le32_digits [OF lt])
  finally show "from_bytes b = n" .
qed

subsection \<open>The raw name loop\<close>

lemma fread_1_in: "pos < length t \<Longrightarrow> fread t pos (Suc 0) = [t ! pos]"
  by (simp add: fread_def Cons_nth_drop_Suc [symmetric])

lemma fread_1_out: "length t \<le> pos \<Longrightarrow> fread t pos n = []"
  by (simp add: fread_def)

lemma raw_loop_zero: "pos < length t \<Longrightarrow> t ! pos = CHR 0x00 \<Longrightarrow> raw_loop t pos acc = Some acc"
  by (subst raw_loop.simps) (simp add: fread_1_in)

lemma raw_loop_nonzero:
  "pos < length t \<Longrightarrow> t ! pos \<noteq> CHR 0x00 \<Longrightarrow> raw_loop t pos acc = raw_loop t (Suc pos) (acc @ [t ! pos])"
  by (subst raw_loop.simps) (simp add: fread_1_in)

lemma raw_loop_Some:
  "pos \<le> i \<Longrightarrow> i < length t \<Longrightarrow> t ! i = CHR 0x00 \<Longrightarrow> \<forall>j. pos \<le> j \<and> j < i \<longrightarrow> t ! j \<noteq> CHR 0x00
   \<Longrightarrow> raw_loop t pos acc = Some (acc @ take (i - pos) (drop pos t))"
proof (induction "i - pos" arbitrary: pos acc)
  case 0
  then have "pos = i" by simp
  with 0 show ?case by (simp add: raw_loop_zero)
next
  case (Suc n)
  then have lt: "pos < i" by simp
  with Suc.prems have nz: "t ! pos \<noteq> CHR 0x00" and inb: "pos < length t" by auto
  have "raw_loop t (Suc pos) (acc @ [t ! pos]) = Some ((acc @ [t ! pos]) @ take (i - Suc pos) (drop (Suc pos) t))"
    using Suc.hyps(2) Suc.prems lt by (intro Suc.hyps(1)) auto
  moreover have "take (i - pos) (drop pos t) = t ! pos # take (i - Suc pos) (drop (Suc pos) t)"
    using lt inb by (metis Cons_nth_drop_Suc Suc_diff_Suc take_Suc_Cons)
  ultimately show ?case using raw_loop_nonzero [OF inb nz] by simp
qed

lemma raw_loop_Some_zero:
  assumes "raw_loop t pos acc = Some y"
  shows "\<exists>i. pos \<le> i \<and> i < length t \<and> t ! i = CHR 0x00"
proof (rule raw_loop.raw_induct
    [where P = "\<lambda>t pos acc y. \<exists>i. pos \<le> i \<and> i < length t \<and> t ! i = CHR 0x00", OF _ assms],
    goal_cases)
  case (1 f t pos acc y)
  note step = 1(2) [unfolded Let_def One_nat_def]
  show ?case
  proof (cases "pos < length t")
    case True
    show ?thesis
    proof (cases "t ! pos = CHR 0x00")
      case z: True
      with True show ?thesis by auto
    next
      case False
      have fr: "fread t pos (Suc 0) = [t ! pos]" using True by (rule fread_1_in)
      from step False have "f t (Suc pos) (acc @ [t ! pos]) = Some y"
        unfolding fr by simp
      then have "\<exists>i. Suc pos \<le> i \<and> i < length t \<and> t ! i = CHR 0x00" by (rule 1(1))
      then obtain i where "Suc pos \<le> i" "i < length t" "t ! i = CHR 0x00" by blast
      then have "pos \<le> i \<and> i < length t \<and> t ! i = CHR 0x00" by simp
      then show ?thesis ..
    qed
  next
    case False
    then have "fread t pos (Suc 0) = []" by (simp add: fread_1_out)
    with step have "f t pos acc = Some y" by simp
    then show ?thesis by (rule 1(1))
  qed
qed

lemma raw_loop_None:
  assumes "\<not> (\<exists>i. pos \<le> i \<and> i < length t \<and> t ! i = CHR 0x00)"
  shows "raw_loop t pos acc = None"
proof (cases "raw_loop t pos acc")
  case None
  then show ?thesis .
next
  case (Some y)
  then have "\<exists>i. pos \<le> i \<and> i < length t \<and> t ! i = CHR 0x00" by (rule raw_loop_Some_zero)
  with assms show ?thesis by simp
qed

lemma raw_loop_first_zero:
  assumes "\<exists>i. pos \<le> i \<and> i < length t \<and> t ! i = CHR 0x00"
  shows "\<exists>i. pos \<le> i \<and> i < length t \<and> t ! i = CHR 0x00
           \<and> raw_loop t pos acc = Some (acc @ take (i - pos) (drop pos t))"
proof -
  define i where "i = (LEAST i. pos \<le> i \<and> i < length t \<and> t ! i = CHR 0x00)"
  have i: "pos \<le> i \<and> i < length t \<and> t ! i = CHR 0x00"
    unfolding i_def using assms by (rule LeastI_ex)
  have "\<forall>j. pos \<le> j \<and> j < i \<longrightarrow> t ! j \<noteq> CHR 0x00"
  proof (intro allI impI notI)
    fix j
    assume j: "pos \<le> j \<and> j < i" and "t ! j = CHR 0x00"
    with i have "pos \<le> j \<and> j < length t \<and> t ! j = CHR 0x00" by simp
    then have "i \<le> j" unfolding i_def by (rule Least_le)
    with j show False by simp
  qed
  with i have "raw_loop t pos acc = Some (acc @ take (i - pos) (drop pos t))"
    by (intro raw_loop_Some) auto
  with i show ?thesis by blast
qed

text \<open>
  Claim C10.  The name loop of the raw variant returns for a name offset exactly when
  the string table holds a zero byte at or after that offset; otherwise (for instance
  at an offset at or past the end of the table, where every read returns nothing) it
  never returns.
\<close>

theorem raw_loop_returns_iff:
  "((\<exists>y. raw_loop stringTable pos path = Some y)
      = (\<exists>i. pos \<le> i \<and> i < length stringTable \<and> stringTable ! i = CHR 0x00))
   \<and> ((raw_loop stringTable pos path = None)
      = (\<not> (\<exists>i. pos \<le> i \<and> i < length stringTable \<and> stringTable ! i = CHR 0x00)))"
proof -
  have a: "(\<exists>y. raw_loop stringTable pos path = Some y)
      = (\<exists>i. pos \<le> i \<and> i < length stringTable \<and> stringTable ! i = CHR 0x00)"
  proof
    assume "\<exists>y. raw_loop stringTable pos path = Some y"
    then obtain y where "raw_loop stringTable pos path = Some y" ..
    then show "\<exists>i. pos \<le> i \<and> i < length stringTable \<and> stringTable ! i = CHR 0x00"
      by (rule raw_loop_Some_zero)
  next
    assume "\<exists>i. pos \<le> i \<and> i < length stringTable \<and> stringTable ! i = CHR 0x00"
    from raw_loop_first_zero [OF this, of path]
    show "\<exists>y. raw_loop stringTable pos path = Some y" by blast
  qed
  have "(raw_loop stringTable pos path = None) = (\<not> (\<exists>y. raw_loop stringTable pos path = Some y))"
    by (cases "raw_loop stringTable pos path") simp_all
  with a show ?thesis by simp
qed

subsection \<open>The buffers of the packer\<close>

lemma struct_pack_3:
  assumes "struct_pack [a, b, c] = Some h"
  shows "\<exists>ba bb bc. h = ba @ bb @ bc \<and> pack_I a = Some ba \<and> pack_I b = Some bb
           \<and> pack_I c = Some bc"
  using assms by (auto split: option.splits)

lemma struct_pack_4:
  assumes "struct_pack [a, b, c, d] = Some h"
  shows "\<exists>ba bb bc bd. h = ba @ bb @ bc @ bd \<and> pack_I a = Some ba \<and> pack_I b = Some bb
           \<and> pack_I c = Some bc \<and> pack_I d = Some bd"
  using assms by (auto split: option.splits)

lemma length_payload_block: "length (payload_block d) = Padding (length d) 0x800 False"
  by (simp add: payload_block_def zeros_def Padding_split)

lemma payload_block_mod: "length (payload_block d) mod 0x800 = 0"
  unfolding length_payload_block by (rule Padding_mod)

lemma pack_loop_files:
  assumes "pack_loop src deflate compress paths no fo toc files = Inr (toc', files')"
  shows "files' = files
    @ concat (map (\<lambda>path. payload_block (entry_payload src deflate compress path)) paths)"
  using assms
proof (induction paths arbitrary: no fo toc files)
  case Nil
  then show ?case by simp
next
  case (Cons path rest)
  from Cons.prems obtain data u c r where
    ed: "entry_data src deflate compress path = Inr (data, u, c)" and
    rec: "pack_loop src deflate compress rest (no + (length path + 1))
            (fo + Padding (length data) 0x800 False) (toc @ r) (files @ payload_block data)
          = Inr (toc', files')"
    by (auto split: sum.splits option.splits prod.splits)
  from ed have "entry_payload src deflate compress path = data" by (simp add: entry_payload_def)
  with Cons.IH [OF rec] show ?case by simp
qed

lemma fread_at: "length pre = pos \<Longrightarrow> length b = n \<Longrightarrow> fread (pre @ b @ rest) pos n = b"
  by (simp add: fread_def)

lemma pack_parts_Inr:
  assumes "pack_parts src deflate names compress = Inr a"
  obtains ba bb bc where
    "Header a = ''DAVE'' @ ba @ bb @ bc @ zeros 0x7F0"
    "pack_I (length names) = Some ba"
    "pack_I (Padding (length names * 16) 0x800 False) = Some bb"
    "pack_I (Padding (sum_list (map (\<lambda>path. length path + 1) (sort names))) 0x800 False) = Some bc"
    "pack_loop src deflate compress (sort names) 0
       (0x800 + Padding (length names * 16) 0x800 False
         + Padding (sum_list (map (\<lambda>path. length path + 1) (sort names))) 0x800 False) [] []
       = Inr (TOCBinary a, filesBinary a)"
    "stringTableBinary a = join_sep [CHR 0x00] (sort names)"
proof -
  let ?st = "sort names"
  let ?t = "Padding (length ?st * 16) 0x800 False"
  let ?s = "Padding (sum_list (map (\<lambda>path. length path + 1) ?st)) 0x800 False"
  note pp = assms [unfolded pack_parts_def Let_def]
  obtain h where h: "struct_pack [length ?st, ?t, ?s] = Some h"
    using pp by (cases "struct_pack [length ?st, ?t, ?s]") (simp_all del: struct_pack.simps)
  obtain toc files where
    l: "pack_loop src deflate compress ?st 0 (0x800 + ?t + ?s) [] [] = Inr (toc, files)"
    using pp h
    by (cases "pack_loop src deflate compress ?st 0 (0x800 + ?t + ?s) [] []")
       (auto simp del: struct_pack.simps)
  from pp h l have a: "a = \<lparr>Header = ''DAVE'' @ h @ zeros 0x7F0, TOCBinary = toc,
      stringTableBinary = join_sep [CHR 0x00] ?st, filesBinary = files\<rparr>"
    by (simp del: struct_pack.simps)
  from struct_pack_3 [OF h] obtain ba bb bc where
    "h = ba @ bb @ bc" "pack_I (length ?st) = Some ba" "pack_I ?t = Some bb" "pack_I ?s = Some bc"
    by blast
  with a l that [of ba bb bc] show thesis by simp
qed

lemma header_fields:
  assumes "pack_parts src deflate names compress = Inr a"
  shows "fread (write_archive a) 0 4 = ''DAVE''"
    and "read_u32 (write_archive a) 4 = (length names, 8)"
    and "read_u32 (write_archive a) 8 = (Padding (length names * 16) 0x800 False, 12)"
    and "read_u32 (write_archive a) 12 =
           (Padding (sum_list (map (\<lambda>path. length path + 1) (sort names))) 0x800 False, 16)"
proof -
  from assms obtain ba bb bc where
    H: "Header a = ''DAVE'' @ ba @ bb @ bc @ zeros 0x7F0" and
    ba: "pack_I (length names) = Some ba" and
    bb: "pack_I (Padding (length names * 16) 0x800 False) = Some bb" and
    bc: "pack_I (Padding (sum_list (map (\<lambda>path. length path + 1) (sort names))) 0x800 False) = Some bc"
    by (rule pack_parts_Inr)
  note la = pack_I_Some [OF ba] and lb = pack_I_Some [OF bb] and lc = pack_I_Some [OF bc]
  let ?rest = "(TOCBinary a @ zeros (Padding (length (TOCBinary a)) 0x800 True))
     @ (stringTableBinary a @ zeros (Padding (length (stringTableBinary a)) 0x800 True))
     @ filesBinary a"
  have w0: "write_archive a = [] @ ''DAVE'' @ (ba @ bb @ bc @ zeros 0x7F0 @ ?rest)"
    by (simp add: write_archive_def H)
  have w4: "write_archive a = ''DAVE'' @ ba @ (bb @ bc @ zeros 0x7F0 @ ?rest)"
    by (simp add: write_archive_def H)
  have w8: "write_archive a = (''DAVE'' @ ba) @ bb @ (bc @ zeros 0x7F0 @ ?rest)"
    by (simp add: write_archive_def H)
  have w12: "write_archive a = (''DAVE'' @ ba @ bb) @ bc @ (zeros 0x7F0 @ ?rest)"
    by (simp add: write_archive_def H)
  show "fread (write_archive a) 0 4 = ''DAVE''"
    by (subst w0, rule fread_at) simp_all
  have "fread (write_archive a) 4 4 = ba"
    by (subst w4, rule fread_at) (simp_all add: la)
  then show "read_u32 (write_archive a) 4 = (length names, 8)"
    by (simp add: read_u32_def la)
  have "fread (write_archive a) 8 4 = bb"
    by (subst w8, rule fread_at) (simp_all add: la lb)
  then show "read_u32 (write_archive a) 8 = (Padding (length names * 16) 0x800 False, 12)"
    by (simp add: read_u32_def lb)
  have "fread (write_archive a) 12 4 = bc"
    by (subst w12, rule fread_at) (simp_all add: la lb lc)
  then show "read_u32 (write_archive a) 12 =
           (Padding (sum_list (map (\<lambda>path. length path + 1) (sort names))) 0x800 False, 16)"
    by (simp add: read_u32_def lc)
qed

text \<open>
  Claim C8.  Whenever \<^verbatim>\<open>pack\<close> produces an archive, whatever the number of entries
  and the lengths of their names, the two lengths its header declares (as
  \<^verbatim>\<open>unpack\<close> reads them back at offsets 8 and 12) are multiples of \<open>0x800\<close>, the
  payload region is the concatenation of one block per entry of the sorted string
  table, and every such block (the payload and its zero padding) has a length that is
  a multiple of \<open>0x800\<close>.
\<close>

theorem pack_padding_invariant:
  assumes "pack_parts src deflate names compress = Inr a"
  shows "fst (read_u32 (write_archive a) 8) mod 0x800 = 0
       \<and> fst (read_u32 (write_archive a) 12) mod 0x800 = 0
       \<and> filesBinary a = concat (map (\<lambda>path. payload_block (entry_payload src deflate compress path))
                                    (sort names))
       \<and> (\<forall>path. length (payload_block (entry_payload src deflate compress path)) mod 0x800 = 0)"
proof -
  from assms obtain ba bb bc where
    l: "pack_loop src deflate compress (sort names) 0
       (0x800 + Padding (length names * 16) 0x800 False
         + Padding (sum_list (map (\<lambda>path. length path + 1) (sort names))) 0x800 False) [] []
       = Inr (TOCBinary a, filesBinary a)"
    by (rule pack_parts_Inr)
  have "filesBinary a = concat (map (\<lambda>path. payload_block (entry_payload src deflate compress path))
                                    (sort names))"
    using pack_loop_files [OF l] by simp
  then show ?thesis
    by (simp add: header_fields [OF assms] Padding_mod payload_block_mod)
qed

theorem pack_padding_invariant_witness:
  "\<exists>a. pack_parts (\<lambda>p. Some ''hi'') id [''a.txt''] False = Inr a
       \<and> fst (read_u32 (write_archive a) 8) mod 0x800 = 0
       \<and> fst (read_u32 (write_archive a) 12) mod 0x800 = 0
       \<and> filesBinary a = payload_block ''hi''
       \<and> length (payload_block ''hi'') mod 0x800 = 0"
proof -
  obtain a where a: "pack_parts (\<lambda>p. Some ''hi'') id [''a.txt''] False = Inr a"
    by (simp add: pack_parts_def pack_I_def Padding_def entry_data_def endswith_def)
  have ep: "entry_payload (\<lambda>p. Some ''hi'') id False ''a.txt'' = ''hi''"
    by (simp add: entry_payload_def entry_data_def endswith_def)
  note inv = pack_padding_invariant [OF a]
  from inv have "length (payload_block (entry_payload (\<lambda>p. Some ''hi'') id False ''a.txt''))
      mod 0x800 = 0"
    by blast
  with inv a ep show ?thesis by auto
qed

lemma struct_pack_length_4:
  assumes "struct_pack [a, b, c, d] = Some r"
  shows "length r = 16"
proof -
  from struct_pack_4 [OF assms] obtain ba bb bc bd where
    "r = ba @ bb @ bc @ bd" "pack_I a = Some ba" "pack_I b = Some bb" "pack_I c = Some bc"
    "pack_I d = Some bd" by blast
  then show ?thesis by (simp add: pack_I_Some(2))
qed

lemma TOCEntry_init_at:
  assumes "struct_pack [no, fo, u, c] = Some r" and "length pre = pos"
  shows "TOCEntry_init (pre @ r @ rest) pos =
    (\<lparr>nameOffset = no, fileOffset = fo, uncompressedSize = u, compressedSize = c, filepath = []\<rparr>,
     pos + 16)"
proof -
  from struct_pack_4 [OF assms(1)] obtain ba bb bc bd where
    r: "r = ba @ bb @ bc @ bd" and ba: "pack_I no = Some ba" and bb: "pack_I fo = Some bb"
    and bc: "pack_I u = Some bc" and bd: "pack_I c = Some bd" by blast
  note la = pack_I_Some [OF ba] and lb = pack_I_Some [OF bb] and lc = pack_I_Some [OF bc]
    and ld = pack_I_Some [OF bd]
  have f1: "fread (pre @ r @ rest) pos 4 = ba"
    unfolding r using fread_at [of pre pos ba 4 "bb @ bc @ bd @ rest"] assms(2) la by simp
  have f2: "fread (pre @ r @ rest) (pos + 4) 4 = bb"
    unfolding r using fread_at [of "pre @ ba" "pos + 4" bb 4 "bc @ bd @ rest"] assms(2) la lb by simp
  have f3: "fread (pre @ r @ rest) (pos + 8) 4 = bc"
    unfolding r using fread_at [of "pre @ ba @ bb" "pos + 8" bc 4 "bd @ rest"] assms(2) la lb lc by simp
  have f4: "fread (pre @ r @ rest) (pos + 12) 4 = bd"
    unfolding r using fread_at [of "pre @ ba @ bb @ bc" "pos + 12" bd 4 rest] assms(2) la lb lc ld by simp
  have r1: "read_u32 (pre @ r @ rest) pos = (no, pos + 4)"
    by (simp add: read_u32_def f1 la)
  have r2: "read_u32 (pre @ r @ rest) (pos + 4) = (fo, pos + 8)"
    by (simp add: read_u32_def f2 lb)
  have r3: "read_u32 (pre @ r @ rest) (pos + 8) = (u, pos + 12)"
    by (simp add: read_u32_def f3 lc)
  have r4: "read_u32 (pre @ r @ rest) (pos + 12) = (c, pos + 16)"
    by (simp add: read_u32_def f4 ld)
  show ?thesis
    by (simp add: TOCEntry_init_def r1 r2 r3 r4)
qed

lemma pack_loop_toc_prefix:
  assumes "pack_loop src deflate compress paths no fo toc files = Inr (toc', files')"
  shows "\<exists>more. toc' = toc @ more \<and> length more = 16 * length paths"
  using assms
proof (induction paths arbitrary: no fo toc files)
  case Nil
  then show ?case by simp
next
  case (Cons path rest)
  from Cons.prems obtain data u c r where
    ed: "entry_data src deflate compress path = Inr (data, u, c)" and
    sp: "struct_pack [no, fo, u, c] = Some r" and
    rec: "pack_loop src deflate compress rest (no + (length path + 1))
            (fo + Padding (length data) 0x800 False) (toc @ r) (files @ payload_block data)
          = Inr (toc', files')"
    by (auto simp del: struct_pack.simps split: sum.splits option.splits prod.splits)
  from Cons.IH [OF rec] obtain more where "toc' = (toc @ r) @ more" "length more = 16 * length rest"
    by blast
  then have "toc' = toc @ (r @ more) \<and> length (r @ more) = 16 * length (path # rest)"
    by (simp add: struct_pack_length_4 [OF sp])
  then show ?case by blast
qed

lemma pack_loop_read_entries:
  assumes "pack_loop src deflate compress paths no fo toc files = Inr (toc', files')"
  shows "read_entries (pre @ toc' @ rest) (length pre + length toc) (length paths)
           = toc_model src deflate compress paths no fo"
  using assms
proof (induction paths arbitrary: no fo toc files)
  case Nil
  then show ?case by simp
next
  case (Cons path ps)
  from Cons.prems obtain data u c r where
    ed: "entry_data src deflate compress path = Inr (data, u, c)" and
    sp: "struct_pack [no, fo, u, c] = Some r" and
    rec: "pack_loop src deflate compress ps (no + (length path + 1))
            (fo + Padding (length data) 0x800 False) (toc @ r) (files @ payload_block data)
          = Inr (toc', files')"
    by (auto simp del: struct_pack.simps split: sum.splits option.splits prod.splits)
  from pack_loop_toc_prefix [OF rec] obtain more where more: "toc' = (toc @ r) @ more" by blast
  have "TOCEntry_init ((pre @ toc) @ r @ (more @ rest)) (length pre + length toc) =
    (\<lparr>nameOffset = no, fileOffset = fo, uncompressedSize = u, compressedSize = c, filepath = []\<rparr>,
     length pre + length toc + 16)"
    by (rule TOCEntry_init_at [OF sp]) simp
  then have hd: "TOCEntry_init (pre @ toc' @ rest) (length pre + length toc) =
    (\<lparr>nameOffset = no, fileOffset = fo, uncompressedSize = u, compressedSize = c, filepath = []\<rparr>,
     length pre + length toc + 16)"
    by (simp add: more)
  have tl: "read_entries (pre @ toc' @ rest) (length pre + length (toc @ r)) (length ps)
           = toc_model src deflate compress ps (no + (length path + 1))
               (fo + Padding (length data) 0x800 False)"
    by (rule Cons.IH [OF rec])
  have ep: "entry_payload src deflate compress path = data" using ed by (simp add: entry_payload_def)
  show ?case
    using hd tl ed ep by (simp add: struct_pack_length_4 [OF sp] add.assoc)
qed

lemma length_toc_model: "length (toc_model src deflate compress paths no fo) = length paths"
  by (induction paths arbitrary: no fo) simp_all

lemma toc_model_nth:
  assumes "i < length paths"
  shows "toc_model src deflate compress paths no fo ! i =
    \<lparr>nameOffset = no + sum_list (map (\<lambda>p. length p + 1) (take i paths)),
     fileOffset = fo + sum_list (map (\<lambda>p. Padding (length (entry_payload src deflate compress p))
                                             0x800 False) (take i paths)),
     uncompressedSize = (case entry_data src deflate compress (paths ! i) of
                           Inl e \<Rightarrow> 0 | Inr (d, u, c) \<Rightarrow> u),
     compressedSize = (case entry_data src deflate compress (paths ! i) of
                         Inl e \<Rightarrow> 0 | Inr (d, u, c) \<Rightarrow> c),
     filepath = []\<rparr>"
  using assms
proof (induction paths arbitrary: i no fo)
  case Nil
  then show ?case by simp
next
  case (Cons path rest)
  show ?case
  proof (cases i)
    case 0
    then show ?thesis by simp
  next
    case (Suc j)
    with Cons.prems have "j < length rest" by simp
    from Cons.IH [OF this] Suc show ?thesis by (simp add: add.assoc)
  qed
qed

lemma length_Header:
  assumes "pack_parts src deflate names compress = Inr a"
  shows "length (Header a) = 0x800"
proof -
  from assms obtain ba bb bc where
    H: "Header a = ''DAVE'' @ ba @ bb @ bc @ zeros 0x7F0" and
    ba: "pack_I (length names) = Some ba" and
    bb: "pack_I (Padding (length names * 16) 0x800 False) = Some bb" and
    bc: "pack_I (Padding (sum_list (map (\<lambda>path. length path + 1) (sort names))) 0x800 False) = Some bc"
    by (rule pack_parts_Inr)
  show ?thesis
    by (simp add: H pack_I_Some(2) [OF ba] pack_I_Some(2) [OF bb] pack_I_Some(2) [OF bc] zeros_def)
qed

lemma pack_read_entries:
  assumes "pack_parts src deflate names compress = Inr a"
  shows "read_entries (write_archive a) 0x800 (length names) =
    toc_model src deflate compress (sort names) 0
      (0x800 + Padding (length names * 16) 0x800 False
        + Padding (sum_list (map (\<lambda>path. length path + 1) (sort names))) 0x800 False)"
proof -
  from assms obtain ba bb bc where
    l: "pack_loop src deflate compress (sort names) 0
       (0x800 + Padding (length names * 16) 0x800 False
         + Padding (sum_list (map (\<lambda>path. length path + 1) (sort names))) 0x800 False) [] []
       = Inr (TOCBinary a, filesBinary a)"
    by (rule pack_parts_Inr)
  let ?rest = "zeros (Padding (length (TOCBinary a)) 0x800 True)
     @ (stringTableBinary a @ zeros (Padding (length (stringTableBinary a)) 0x800 True))
     @ filesBinary a"
  have w: "write_archive a = Header a @ TOCBinary a @ ?rest"
    by (simp add: write_archive_def)
  from pack_loop_read_entries [OF l, of "Header a" ?rest]
  show ?thesis
    by (simp add: w length_Header [OF assms])
qed

lemma Padding_ge_pad:
  assumes "0 < n" and "0 < pad"
  shows "pad \<le> Padding n pad False"
proof (cases "n mod pad = 0")
  case True
  then have "pad dvd n" by auto
  with assms have "pad \<le> n" by (simp add: dvd_imp_le)
  with True show ?thesis by (simp add: Padding_def)
next
  case False
  have "n mod pad \<le> n" by simp
  then have "pad \<le> n + pad - n mod pad" by arith
  with False show ?thesis by (simp add: Padding_def)
qed

lemma payload_block_Nil: "payload_block [] = []"
  by (simp add: payload_block_def Padding_def zeros_def)

lemma entry_data_dir:
  "endswith path ''/'' \<Longrightarrow> entry_data src deflate compress path = Inr ([], 0, 0)"
  by (simp add: entry_data_def)

text \<open>
  Claim C7, amended.  In an archive produced by \<^verbatim>\<open>pack\<close> every entry, directory or
  file, has the name offset given by the running sum of the earlier names and their
  separators, and the file offset given by the running payload offset: the start of
  the payload region plus the padded sizes of the earlier payloads, never below
  \<open>0x1800\<close>.  A directory entry (a path ending in \<open>/\<close>) has in addition both sizes
  zero and adds no bytes to the payload region; its file offset is therefore not
  zero but the offset the next payload written will have.
\<close>

theorem directory_entry_fields:
  assumes "pack_parts src deflate names compress = Inr a"
    and "i < length names"
  shows "nameOffset (read_entries (write_archive a) 0x800 (length names) ! i)
           = sum_list (map (\<lambda>p. length p + 1) (take i (sort names)))
    \<and> fileOffset (read_entries (write_archive a) 0x800 (length names) ! i)
           = 0x800 + Padding (length names * 16) 0x800 False
             + Padding (sum_list (map (\<lambda>path. length path + 1) (sort names))) 0x800 False
             + sum_list (map (\<lambda>p. Padding (length (entry_payload src deflate compress p)) 0x800 False)
                          (take i (sort names)))
    \<and> 0x1800 \<le> fileOffset (read_entries (write_archive a) 0x800 (length names) ! i)
    \<and> (endswith (sort names ! i) ''/'' \<longrightarrow>
          uncompressedSize (read_entries (write_archive a) 0x800 (length names) ! i) = 0
        \<and> compressedSize (read_entries (write_archive a) 0x800 (length names) ! i) = 0
        \<and> payload_block (entry_payload src deflate compress (sort names ! i)) = [])"
proof -
  let ?e = "read_entries (write_archive a) 0x800 (length names) ! i"
  from assms(2) have i: "i < length (sort names)" by simp
  note nth = toc_model_nth [OF i, of src deflate compress]
  from assms(2) have "0 < length names" by arith
  then have "0 < length names * 16" by arith
  then have t: "0x800 \<le> Padding (length names * 16) 0x800 False" by (rule Padding_ge_pad) simp
  have "0 < sum_list (map (\<lambda>path. length path + 1) (sort names))"
    using i by (cases "sort names") simp_all
  then have s: "0x800 \<le> Padding (sum_list (map (\<lambda>path. length path + 1) (sort names))) 0x800 False"
    by (rule Padding_ge_pad) simp
  have e: "?e = toc_model src deflate compress (sort names) 0
                  (0x800 + Padding (length names * 16) 0x800 False
                   + Padding (sum_list (map (\<lambda>path. length path + 1) (sort names))) 0x800 False) ! i"
    unfolding pack_read_entries [OF assms(1)] ..
  have no: "nameOffset ?e = sum_list (map (\<lambda>p. length p + 1) (take i (sort names)))"
    unfolding e nth by simp
  have fo: "fileOffset ?e
           = 0x800 + Padding (length names * 16) 0x800 False
             + Padding (sum_list (map (\<lambda>path. length path + 1) (sort names))) 0x800 False
             + sum_list (map (\<lambda>p. Padding (length (entry_payload src deflate compress p)) 0x800 False)
                          (take i (sort names)))"
    unfolding e nth by simp
  have lo: "0x1800 \<le> fileOffset ?e"
    unfolding fo using t s by simp
  have dir: "uncompressedSize ?e = 0 \<and> compressedSize ?e = 0
        \<and> payload_block (entry_payload src deflate compress (sort names ! i)) = []"
    if d: "endswith (sort names ! i) ''/''"
  proof -
    note ed = entry_data_dir [OF d, of src deflate compress]
    have p: "payload_block (entry_payload src deflate compress (sort names ! i)) = []"
      by (simp add: entry_payload_def ed payload_block_Nil)
    show ?thesis
      unfolding e nth using p ed by simp
  qed
  from no fo lo dir show ?thesis by blast
qed

theorem directory_entry_fields_witness:
  "\<exists>a. pack_parts (\<lambda>p. Some ''hi'') id [''d/'', ''a.txt''] False = Inr a
     \<and> (1::nat) < length [''d/'', ''a.txt'']
     \<and> endswith (sort [''d/'', ''a.txt''] ! 1) ''/''
     \<and> nameOffset (read_entries (write_archive a) 0x800 2 ! 0) = 0
     \<and> fileOffset (read_entries (write_archive a) 0x800 2 ! 0) = 0x1800
     \<and> nameOffset (read_entries (write_archive a) 0x800 2 ! 1) = 6
     \<and> uncompressedSize (read_entries (write_archive a) 0x800 2 ! 1) = 0
     \<and> compressedSize (read_entries (write_archive a) 0x800 2 ! 1) = 0
     \<and> fileOffset (read_entries (write_archive a) 0x800 2 ! 1) = 0x2000
     \<and> payload_block (entry_payload (\<lambda>p. Some ''hi'') id False ''d/'') = []"
proof -
  have s: "sort [''d/'', ''a.txt''] = [''a.txt'', ''d/'']" by simp
  obtain a where a: "pack_parts (\<lambda>p. Some ''hi'') id [''d/'', ''a.txt''] False = Inr a"
    by (simp add: pack_parts_def pack_I_def Padding_def entry_data_def endswith_def)
  have l: "(1::nat) < length [''d/'', ''a.txt'']" by simp
  have l0: "(0::nat) < length [''d/'', ''a.txt'']" by simp
  have d: "endswith (sort [''d/'', ''a.txt''] ! 1) ''/''" by (simp add: endswith_def)
  have len: "length [''d/'', ''a.txt''] = 2" by simp
  have ep: "entry_payload (\<lambda>p. Some ''hi'') id False ''a.txt'' = ''hi''"
    by (simp add: entry_payload_def entry_data_def endswith_def)
  note th = directory_entry_fields [OF a l, unfolded len s]
  note th0 = directory_entry_fields [OF a l0, unfolded len s]
  from th th0 a d show ?thesis
    by (simp add: s ep Padding_def del: read_entries.simps)
qed

theorem directory_fileOffset_counterexample:
  "endswith ''d/'' ''/''
   \<and> (case pack_parts (\<lambda>p. None) id [''d/''] False of
        Inl e \<Rightarrow> []
      | Inr a \<Rightarrow> map fileOffset (read_entries (write_archive a) 0x800 1)) = [0x1800]"
proof -
  obtain a where a: "pack_parts (\<lambda>p. None) id [''d/''] False = Inr a"
    by (simp add: pack_parts_def pack_I_def Padding_def entry_data_def endswith_def)
  have len: "length [''d/''] = 1" by simp
  from pack_read_entries [OF a, unfolded len]
  have "map fileOffset (read_entries (write_archive a) 0x800 1) = [0x1800]"
    by (simp add: Padding_def del: read_entries.simps)
  with a show ?thesis by (simp add: endswith_def)
qed

subsection \<open>The raw string table codec\<close>

lemma raw_loop_at:
  assumes "CHR 0x00 \<notin> set p"
  shows "raw_loop (pre @ p @ CHR 0x00 # rest) (length pre) acc = Some (acc @ p)"
proof -
  let ?t = "pre @ p @ CHR 0x00 # rest"
  let ?i = "length pre + length p"
  have z: "?t ! ?i = CHR 0x00" by (simp add: nth_append)
  have nz: "\<forall>j. length pre \<le> j \<and> j < ?i \<longrightarrow> ?t ! j \<noteq> CHR 0x00"
  proof (intro allI impI)
    fix j
    assume j: "length pre \<le> j \<and> j < ?i"
    then have jp: "j - length pre < length p" and "\<not> j < length pre" by arith+
    then have "?t ! j = p ! (j - length pre)" by (simp add: nth_append)
    moreover from jp have "p ! (j - length pre) \<in> set p" by (rule nth_mem)
    ultimately show "?t ! j \<noteq> CHR 0x00" using assms by metis
  qed
  have "raw_loop ?t (length pre) acc = Some (acc @ take (?i - length pre) (drop (length pre) ?t))"
    by (rule raw_loop_Some [OF _ _ z nz]) simp_all
  then show ?thesis by simp
qed

lemma length_concat_terminated:
  "length (concat (map (\<lambda>p. p @ [CHR 0x00]) xs)) = sum_list (map (\<lambda>p. length p + 1) xs)"
  by (induction xs) simp_all

lemma raw_loop_terminated:
  assumes "i < length paths" and "CHR 0x00 \<notin> set (paths ! i)"
  shows "raw_loop (concat (map (\<lambda>p. p @ [CHR 0x00]) paths) @ rest)
           (sum_list (map (\<lambda>p. length p + 1) (take i paths))) acc = Some (acc @ paths ! i)"
proof -
  let ?f = "\<lambda>p. p @ [CHR 0x00]"
  have "concat (map ?f (take i paths @ paths ! i # drop (Suc i) paths)) =
      concat (map ?f (take i paths)) @ (paths ! i @ [CHR 0x00]) @ concat (map ?f (drop (Suc i) paths))"
    by simp
  then have "concat (map ?f paths) =
      concat (map ?f (take i paths)) @ (paths ! i @ [CHR 0x00]) @ concat (map ?f (drop (Suc i) paths))"
    using id_take_nth_drop [OF assms(1)] by simp
  then have t: "concat (map ?f paths) @ rest =
      concat (map ?f (take i paths)) @ paths ! i @ CHR 0x00 # (concat (map ?f (drop (Suc i) paths)) @ rest)"
    by simp
  show ?thesis
    unfolding t length_concat_terminated [symmetric]
    by (rule raw_loop_at [OF assms(2)])
qed

lemma join_sep_butlast:
  "paths \<noteq> [] \<Longrightarrow> join_sep sep paths = concat (map (\<lambda>p. p @ sep) (butlast paths)) @ last paths"
  by (induction sep paths rule: join_sep.induct) simp_all

lemma join_sep_terminated:
  "paths \<noteq> [] \<Longrightarrow> join_sep sep paths @ sep = concat (map (\<lambda>p. p @ sep) paths)"
proof -
  assume ne: "paths \<noteq> []"
  have "concat (map (\<lambda>p. p @ sep) (butlast paths @ [last paths]))
      = concat (map (\<lambda>p. p @ sep) (butlast paths)) @ last paths @ sep"
    by simp
  then have "concat (map (\<lambda>p. p @ sep) paths)
      = concat (map (\<lambda>p. p @ sep) (butlast paths)) @ last paths @ sep"
    using append_butlast_last_id [OF ne] by simp
  with join_sep_butlast [OF ne, of sep] show ?thesis by simp
qed

lemma raw_loop_unterminated:
  assumes "paths \<noteq> []" and "CHR 0x00 \<notin> set (last paths)"
  shows "raw_loop (join_sep [CHR 0x00] paths)
           (sum_list (map (\<lambda>p. length p + 1) (butlast paths))) acc = None"
proof (rule raw_loop_None, rule notI)
  let ?pre = "concat (map (\<lambda>p. p @ [CHR 0x00]) (butlast paths))"
  let ?t = "join_sep [CHR 0x00] paths"
  have t: "?t = ?pre @ last paths" by (rule join_sep_butlast [OF assms(1)])
  have len: "length ?pre = sum_list (map (\<lambda>p. length p + 1) (butlast paths))"
    by (rule length_concat_terminated)
  assume "\<exists>i. sum_list (map (\<lambda>p. length p + 1) (butlast paths)) \<le> i \<and> i < length ?t
             \<and> ?t ! i = CHR 0x00"
  then obtain i where i: "length ?pre \<le> i" "i < length ?t" "?t ! i = CHR 0x00"
    unfolding len by blast
  from i(1,2) have il: "i - length ?pre < length (last paths)" and "\<not> i < length ?pre"
    unfolding t by simp_all
  then have "?t ! i = last paths ! (i - length ?pre)"
    unfolding t by (simp add: nth_append)
  moreover from il have "last paths ! (i - length ?pre) \<in> set (last paths)" by (rule nth_mem)
  ultimately show False using i(3) assms(2) by metis
qed

text \<open>
  The name loop on a table of zero-free paths joined by single zero bytes, with the
  name offsets that are the running byte count of the earlier paths and their
  separators: where a zero byte follows the joined table, the loop started at the
  offset of path \<open>i\<close> returns exactly that path, for every \<open>i\<close>, the last one
  included.  On the joined table alone the same holds for every path but the last;
  for the last path the loop finds no zero byte and does not return.
\<close>

lemma raw_string_table_codec:
  assumes "\<forall>p\<in>set paths. CHR 0x00 \<notin> set p" and "i < length paths"
  shows "raw_loop (join_sep [CHR 0x00] paths @ CHR 0x00 # rest)
           (sum_list (map (\<lambda>p. length p + 1) (take i paths))) [] = Some (paths ! i)
    \<and> (Suc i < length paths \<longrightarrow>
         raw_loop (join_sep [CHR 0x00] paths)
           (sum_list (map (\<lambda>p. length p + 1) (take i paths))) [] = Some (paths ! i))
    \<and> (Suc i = length paths \<longrightarrow>
         raw_loop (join_sep [CHR 0x00] paths)
           (sum_list (map (\<lambda>p. length p + 1) (take i paths))) [] = None)"
proof (intro conjI impI)
  from assms(2) have ne: "paths \<noteq> []" by auto
  from assms have nz: "CHR 0x00 \<notin> set (paths ! i)" by simp
  have "join_sep [CHR 0x00] paths @ CHR 0x00 # rest
      = (join_sep [CHR 0x00] paths @ [CHR 0x00]) @ rest"
    by simp
  also have "\<dots> = concat (map (\<lambda>p. p @ [CHR 0x00]) paths) @ rest"
    unfolding join_sep_terminated [OF ne] ..
  finally have eq: "join_sep [CHR 0x00] paths @ CHR 0x00 # rest
      = concat (map (\<lambda>p. p @ [CHR 0x00]) paths) @ rest" .
  show "raw_loop (join_sep [CHR 0x00] paths @ CHR 0x00 # rest)
           (sum_list (map (\<lambda>p. length p + 1) (take i paths))) [] = Some (paths ! i)"
    unfolding eq using raw_loop_terminated [OF assms(2) nz, of rest "[]"] by simp
next
  assume lt: "Suc i < length paths"
  then have ne: "paths \<noteq> []" by auto
  from lt have ib: "i < length (butlast paths)" by simp
  then have nth: "butlast paths ! i = paths ! i" by (simp add: nth_butlast)
  from ib have tk: "take i (butlast paths) = take i paths" by (simp add: take_butlast)
  from assms have nz: "CHR 0x00 \<notin> set (butlast paths ! i)" unfolding nth by simp
  from raw_loop_terminated [OF ib nz, of "last paths" "[]"]
  show "raw_loop (join_sep [CHR 0x00] paths)
           (sum_list (map (\<lambda>p. length p + 1) (take i paths))) [] = Some (paths ! i)"
    unfolding join_sep_butlast [OF ne] nth tk by simp
next
  assume eq: "Suc i = length paths"
  then have ne: "paths \<noteq> []" by auto
  from eq have "i = length paths - 1" by arith
  then have tk: "take i paths = butlast paths" by (simp add: butlast_conv_take)
  from assms(1) ne have "CHR 0x00 \<notin> set (last paths)" by simp
  from raw_loop_unterminated [OF ne this]
  show "raw_loop (join_sep [CHR 0x00] paths)
           (sum_list (map (\<lambda>p. length p + 1) (take i paths))) [] = None"
    unfolding tk .
qed

lemma raw_string_table_codec_example:
  "CHR 0x00 \<notin> set ''a.txt'' \<and> CHR 0x00 \<notin> set ''sub/'' \<and> CHR 0x00 \<notin> set ''sub/b.txt''
   \<and> (1::nat) < length [''a.txt'', ''sub/'', ''sub/b.txt'']
   \<and> raw_loop (join_sep [CHR 0x00] [''a.txt'', ''sub/'', ''sub/b.txt''] @ CHR 0x00 # zeros 3) 6 []
        = Some ''sub/''
   \<and> raw_loop (join_sep [CHR 0x00] [''a.txt'', ''sub/'', ''sub/b.txt'']) 6 [] = Some ''sub/''"
proof -
  have h: "\<forall>p\<in>set [''a.txt'', ''sub/'', ''sub/b.txt'']. CHR 0x00 \<notin> set p" by simp
  have l: "(1::nat) < length [''a.txt'', ''sub/'', ''sub/b.txt'']" by simp
  from raw_string_table_codec [OF h l, of "zeros 3"] h l show ?thesis
    by (simp add: eval_nat_numeral)
qed

lemma raw_last_path_example:
  "CHR 0x00 \<notin> set ''a.txt'' \<and> CHR 0x00 \<notin> set ''b.txt''
   \<and> raw_loop (join_sep [CHR 0x00] [''a.txt'', ''b.txt''])
        (sum_list (map (\<lambda>p. length p + 1) (take 1 [''a.txt'', ''b.txt'']))) [] = None"
proof -
  have "raw_loop (join_sep [CHR 0x00] [''a.txt'', ''b.txt''])
        (sum_list (map (\<lambda>p. length p + 1) (butlast [''a.txt'', ''b.txt'']))) [] = None"
    by (rule raw_loop_unterminated) simp_all
  then show ?thesis by simp
qed

subsection \<open>The bit stream of the packed string table\<close>

lemma dave_loop_stream:
  "\<exists>n. dave_loop t pos rb l temp
          = temp @ map (\<lambda>k. dave_emit t ((dave_step t ^^ k) (pos, rb, l))) [0..<Suc n]
       \<and> dave_emit t ((dave_step t ^^ n) (pos, rb, l)) = 0
       \<and> (\<forall>k<n. dave_emit t ((dave_step t ^^ k) (pos, rb, l)) \<noteq> 0)"
proof (induction t pos rb l temp rule: dave_loop.induct)
  case (1 t pos rb l temp)
  let ?s = "(pos, rb, l)"
  let ?g = "dave_emit t ?s"
  have g: "?g = dave_group (dave_value t pos rb) rb l" by (simp add: dave_emit_def)
  show ?case
  proof (cases "?g = 0")
    case True
    then have "dave_loop t pos rb l temp = temp @ [?g]"
      by (subst dave_loop.simps) (simp add: g Let_def)
    with True show ?thesis by (intro exI [of _ 0]) simp
  next
    case False
    let ?s' = "dave_step t ?s"
    have s': "?s' = (dave_pos t pos rb, dave_bits rb, dave_value t pos rb)"
      by (simp add: dave_step_def)
    from False have unf: "dave_loop t pos rb l temp
        = dave_loop t (dave_pos t pos rb) (dave_bits rb) (dave_value t pos rb) (temp @ [?g])"
      by (subst dave_loop.simps) (simp add: g Let_def)
    from False have "last (temp @ [dave_group (dave_value t pos rb) rb l]) \<noteq> 0" by (simp add: g)
    from "1.IH" [OF refl refl this] obtain n where
      n: "dave_loop t (dave_pos t pos rb) (dave_bits rb) (dave_value t pos rb) (temp @ [?g])
            = (temp @ [?g]) @ map (\<lambda>k. dave_emit t ((dave_step t ^^ k) ?s')) [0..<Suc n]"
         "dave_emit t ((dave_step t ^^ n) ?s') = 0"
         "\<forall>k<n. dave_emit t ((dave_step t ^^ k) ?s') \<noteq> 0"
      unfolding s' g by blast
    have shift: "(dave_step t ^^ k) ?s' = (dave_step t ^^ Suc k) ?s" for k
      by (simp add: funpow_swap1)
    have "map (\<lambda>k. dave_emit t ((dave_step t ^^ k) ?s)) [0..<Suc (Suc n)]
        = ?g # map (\<lambda>k. dave_emit t ((dave_step t ^^ Suc k) ?s)) [0..<Suc n]"
      by (simp only: upt_conv_Cons [of 0 "Suc (Suc n)"] map_Suc_upt [symmetric] list.map map_map o_def
            funpow_0 zero_less_Suc if_True)
    then have a: "dave_loop t pos rb l temp
        = temp @ map (\<lambda>k. dave_emit t ((dave_step t ^^ k) ?s)) [0..<Suc (Suc n)]"
      unfolding unf n(1) shift by simp
    have b: "dave_emit t ((dave_step t ^^ Suc n) ?s) = 0"
      using n(2) unfolding shift .
    have c: "\<forall>k<Suc n. dave_emit t ((dave_step t ^^ k) ?s) \<noteq> 0"
    proof (intro allI impI)
      fix k assume "k < Suc n"
      show "dave_emit t ((dave_step t ^^ k) ?s) \<noteq> 0"
      proof (cases k)
        case 0
        with False show ?thesis by simp
      next
        case (Suc j)
        with \<open>k < Suc n\<close> have "j < n" by simp
        with n(3) have "dave_emit t ((dave_step t ^^ j) ?s') \<noteq> 0" by blast
        then show ?thesis unfolding shift Suc .
      qed
    qed
    from a b c show ?thesis by blast
  qed
qed

text \<open>
  Claim C2, amended.  One pass of the extractor, from the state (position,
  carry-bit-count, carry byte): when the carry holds exactly 6 unconsumed bits the group
  is those 6 bits (the carry byte shifted down by 2), no byte is read and the carry is
  reset to empty.  Otherwise, if the table has a byte at the position, that byte is
  consumed, the group is (its low-order \<open>6 - count\<close> bits shifted up by the count) OR
  (the carry byte shifted down by \<open>8 - count\<close>), the byte becomes the carry and the new
  count is \<open>8 - (6 - count)\<close>.  Otherwise the table is exhausted: the read yields
  nothing, which counts as the byte 0 and consumes no byte, so the group is the carry
  shifted down and the carry becomes 0.  The extractor returns the groups of the
  successive passes up to and including the first group equal to 0, and it always
  returns.
\<close>

theorem dave_extractor:
  "(remainingBits = 6 \<longrightarrow>
      dave_emit t (pos, remainingBits, lastValue) = drop_bit 2 lastValue
      \<and> dave_step t (pos, remainingBits, lastValue) = (pos, 0, 0))
   \<and> (remainingBits \<noteq> 6 \<and> pos < length t \<longrightarrow>
      dave_emit t (pos, remainingBits, lastValue)
        = or (push_bit remainingBits (and (of_char (t ! pos)) (2 ^ (6 - remainingBits) - 1)))
             (drop_bit (8 - remainingBits) lastValue)
      \<and> dave_step t (pos, remainingBits, lastValue)
        = (pos + 1, 8 - (6 - remainingBits), of_char (t ! pos)))
   \<and> (remainingBits \<noteq> 6 \<and> length t \<le> pos \<longrightarrow>
      dave_emit t (pos, remainingBits, lastValue) = drop_bit (8 - remainingBits) lastValue
      \<and> dave_step t (pos, remainingBits, lastValue) = (pos, 8 - (6 - remainingBits), 0))
   \<and> (\<exists>n. dave_loop t offset 0 0 []
            = map (\<lambda>k. dave_emit t ((dave_step t ^^ k) (offset, 0, 0))) [0..<Suc n]
          \<and> dave_emit t ((dave_step t ^^ n) (offset, 0, 0)) = 0
          \<and> (\<forall>k<n. dave_emit t ((dave_step t ^^ k) (offset, 0, 0)) \<noteq> 0))"
proof (intro conjI impI)
  assume "remainingBits = 6"
  then show "dave_emit t (pos, remainingBits, lastValue) = drop_bit 2 lastValue"
    by (simp add: dave_emit_def dave_value_def dave_group_def)
next
  assume "remainingBits = 6"
  then show "dave_step t (pos, remainingBits, lastValue) = (pos, 0, 0)"
    by (simp add: dave_step_def dave_value_def dave_pos_def dave_bits_def)
next
  assume a: "remainingBits \<noteq> 6 \<and> pos < length t"
  then have r: "fread t pos 1 = [t ! pos]" using fread_1_in [of pos t] by simp
  from a r show "dave_emit t (pos, remainingBits, lastValue)
        = or (push_bit remainingBits (and (of_char (t ! pos)) (2 ^ (6 - remainingBits) - 1)))
             (drop_bit (8 - remainingBits) lastValue)"
    by (simp add: dave_emit_def dave_value_def dave_group_def from_bytes_def)
  from a r show "dave_step t (pos, remainingBits, lastValue)
        = (pos + 1, 8 - (6 - remainingBits), of_char (t ! pos))"
    by (simp add: dave_step_def dave_value_def dave_pos_def dave_bits_def from_bytes_def)
next
  assume a: "remainingBits \<noteq> 6 \<and> length t \<le> pos"
  then have r: "fread t pos 1 = []" by (simp add: fread_1_out)
  from a r show "dave_emit t (pos, remainingBits, lastValue) = drop_bit (8 - remainingBits) lastValue"
    by (simp add: dave_emit_def dave_value_def dave_group_def from_bytes_def)
  from a r show "dave_step t (pos, remainingBits, lastValue) = (pos, 8 - (6 - remainingBits), 0)"
    by (simp add: dave_step_def dave_value_def dave_pos_def dave_bits_def from_bytes_def)
next
  from dave_loop_stream [of t offset 0 0 "[]"]
  show "\<exists>n. dave_loop t offset 0 0 []
            = map (\<lambda>k. dave_emit t ((dave_step t ^^ k) (offset, 0, 0))) [0..<Suc n]
          \<and> dave_emit t ((dave_step t ^^ n) (offset, 0, 0)) = 0
          \<and> (\<forall>k<n. dave_emit t ((dave_step t ^^ k) (offset, 0, 0)) \<noteq> 0)"
    by simp
qed

theorem dave_extractor_witness:
  "dave_emit [CHR 0xFC] (1, 6, 0xFC) = 63
   \<and> dave_step [CHR 0xFC] (1, 6, 0xFC) = (1, 0, 0)
   \<and> (2::nat) \<noteq> 6 \<and> (1::nat) < length [CHR 0x95, CHR 0x05, CHR 0x00]
   \<and> dave_emit [CHR 0x95, CHR 0x05, CHR 0x00] (1, 2, 0x95) = 22
   \<and> dave_step [CHR 0x95, CHR 0x05, CHR 0x00] (1, 2, 0x95) = (2, 4, 5)
   \<and> length [CHR 0xFF] \<le> (1::nat)
   \<and> dave_emit [CHR 0xFF] (1, 2, 0xFF) = 3
   \<and> dave_step [CHR 0xFF] (1, 2, 0xFF) = (1, 4, 0)"
proof -
  note a = dave_extractor [where remainingBits = 6 and t = "[CHR 0xFC]" and pos = 1
      and lastValue = "0xFC" and offset = 0]
  note b = dave_extractor [where remainingBits = 2 and t = "[CHR 0x95, CHR 0x05, CHR 0x00]"
      and pos = 1 and lastValue = "0x95" and offset = 0]
  note c = dave_extractor [where remainingBits = 2 and t = "[CHR 0xFF]" and pos = 1
      and lastValue = "0xFF" and offset = 0]
  from a have "dave_emit [CHR 0xFC] (1, 6, 0xFC) = 63
      \<and> dave_step [CHR 0xFC] (1, 6, 0xFC) = (1, 0, 0)"
    by simp
  moreover from b have "dave_emit [CHR 0x95, CHR 0x05, CHR 0x00] (1, 2, 0x95) = 22
      \<and> dave_step [CHR 0x95, CHR 0x05, CHR 0x00] (1, 2, 0x95) = (2, 4, 5)"
    by simp
  moreover from c have "dave_emit [CHR 0xFF] (1, 2, 0xFF) = 3
      \<and> dave_step [CHR 0xFF] (1, 2, 0xFF) = (1, 4, 0)"
    by simp
  ultimately show ?thesis by simp
qed

theorem dave_exhausted_counterexample:
  "dave_loop [CHR 0xFF] 0 0 0 [] = [63, 3, 0]
   \<and> dave_step [CHR 0xFF] (0, 0, 0) = (1, 2, 0xFF)
   \<and> dave_emit [CHR 0xFF] (1, 2, 0xFF) = 3
   \<and> dave_step [CHR 0xFF] (1, 2, 0xFF) = (1, 4, 0)"
proof -
  have v0: "dave_value [CHR 0xFF] 0 0 = 0xFF"
    by (simp add: dave_value_def fread_1_in from_bytes_def)
  have v1: "dave_value [CHR 0xFF] 1 2 = 0"
    by (simp add: dave_value_def fread_1_out from_bytes_def)
  have v2: "dave_value [CHR 0xFF] 1 4 = 0"
    by (simp add: dave_value_def fread_1_out from_bytes_def)
  have p0: "dave_pos [CHR 0xFF] 0 0 = 1" by (simp add: dave_pos_def fread_1_in)
  have p1: "dave_pos [CHR 0xFF] 1 2 = 1" by (simp add: dave_pos_def fread_1_out)
  have g0: "dave_group 0xFF 0 0 = 63" by (simp add: dave_group_def)
  have g1: "dave_group 0 2 0xFF = 3" by (simp add: dave_group_def)
  have g2: "dave_group 0 4 0 = 0" by (simp add: dave_group_def)
  have b0: "dave_bits 0 = 2" and b1: "dave_bits 2 = 4" by (simp_all add: dave_bits_def)
  have "dave_loop [CHR 0xFF] 1 4 0 [63, 3] = [63, 3, 0]"
    by (subst dave_loop.simps, simp only: Let_def v2 g2, simp)
  then have "dave_loop [CHR 0xFF] 1 2 0xFF [63] = [63, 3, 0]"
    by (subst dave_loop.simps, simp only: Let_def v1 g1 p1 b1, simp)
  then have "dave_loop [CHR 0xFF] 0 0 0 [] = [63, 3, 0]"
    by (subst dave_loop.simps, simp only: Let_def v0 g0 p0 b0, simp)
  moreover have "dave_step [CHR 0xFF] (0, 0, 0) = (1, 2, 0xFF)"
    by (simp only: dave_step_def prod.case v0 p0 b0)
  moreover have "dave_emit [CHR 0xFF] (1, 2, 0xFF) = 3"
    by (simp only: dave_emit_def prod.case v1 g1)
  moreover have "dave_step [CHR 0xFF] (1, 2, 0xFF) = (1, 4, 0)"
    by (simp only: dave_step_def prod.case v1 p1 b1)
  ultimately show ?thesis by simp
qed

subsection \<open>Path reconstruction of the packed string table\<close>

lemma dave_loop_unfold:
  "dave_loop t pos rb l temp =
     (if dave_group (dave_value t pos rb) rb l = 0 then temp @ [0]
      else dave_loop t (dave_pos t pos rb) (dave_bits rb) (dave_value t pos rb)
             (temp @ [dave_group (dave_value t pos rb) rb l]))"
  by (subst dave_loop.simps) (simp add: Let_def)

lemmas dave_eval = dave_value_def dave_pos_def dave_bits_def dave_group_def fread_def
  from_bytes_def

lemma dave_loop_shape:
  "\<exists>gs. dave_loop t pos rb l temp = temp @ gs @ [0] \<and> 0 \<notin> set gs"
proof -
  from dave_loop_stream [of t pos rb l temp] obtain n where
    n: "dave_loop t pos rb l temp
          = temp @ map (\<lambda>k. dave_emit t ((dave_step t ^^ k) (pos, rb, l))) [0..<Suc n]"
       "dave_emit t ((dave_step t ^^ n) (pos, rb, l)) = 0"
       "\<forall>k<n. dave_emit t ((dave_step t ^^ k) (pos, rb, l)) \<noteq> 0"
    by blast
  let ?gs = "map (\<lambda>k. dave_emit t ((dave_step t ^^ k) (pos, rb, l))) [0..<n]"
  from n(1,2) have "dave_loop t pos rb l temp = temp @ ?gs @ [0]" by simp
  moreover from n(3) have "0 \<notin> set ?gs" by auto
  ultimately show ?thesis by blast
qed

lemma length_dave_names: "length (dave_names st prev es) = length es"
  by (induction es arbitrary: prev) (simp_all add: Let_def)

lemma dave_names_nth:
  assumes "i < length es"
  shows "dave_names st prev es ! i
    = (es ! i)\<lparr>filepath := dave_path (if i = 0 then prev
                                       else filepath (dave_names st prev es ! (i - 1)))
                              (dave_loop st (nameOffset (es ! i)) 0 0 [])\<rparr>"
  using assms
proof (induction es arbitrary: prev i)
  case Nil
  then show ?case by simp
next
  case (Cons e es)
  show ?case
  proof (cases i)
    case 0
    then show ?thesis by (simp add: Let_def)
  next
    case (Suc j)
    with Cons.prems have j: "j < length es" by simp
    let ?p = "dave_path prev (dave_loop st (nameOffset e) 0 0 [])"
    have hd: "dave_names st prev (e # es) ! 0 = e\<lparr>filepath := ?p\<rparr>" by (simp add: Let_def)
    have tl: "dave_names st prev (e # es) ! Suc k = dave_names st ?p es ! k" for k
      by (simp add: Let_def)
    show ?thesis
    proof (cases j)
      case 0
      with Cons.IH [OF j, of ?p] Suc show ?thesis by (simp add: tl hd del: dave_names.simps)
    next
      case (Suc k)
      with Cons.IH [OF j, of ?p] \<open>i = Suc j\<close> show ?thesis by (simp add: tl del: dave_names.simps)
    qed
  qed
qed

text \<open>
  Claim C3, amended.  For an archive with the packed magic the names are decoded in the
  order of the table of contents.  With \<open>temp\<close> the groups extracted at the entry's
  name offset (never empty, ending with the only 0) and \<open>symbols\<close> those groups
  without the final 0: if the first group is below 56 the path is the alphabet
  characters of the symbols below 48, in order; otherwise it is a prefix of the path
  decoded for the entry just before it in the table of contents (the empty path for the
  first entry), followed by the characters of the symbols below 48 after the first two.
  The prefix is the Python slice \<open>prev[:L]\<close> with
  \<open>L = (temp[0] - 0x38) + ((temp[1] - 0x20) << 3)\<close>: the first \<open>L\<close> characters when
  \<open>L\<close> is not negative, and \<open>prev\<close> without its last \<open>-L\<close> characters when \<open>L\<close> is
  negative, as it is whenever the second group is below 32.  The second group is the
  terminating 0 itself when only one symbol precedes it.
\<close>

theorem dave_path_reconstruction:
  assumes "i < length entries"
  shows "let names = dave_names stringTable [] entries;
             temp = dave_loop stringTable (nameOffset (entries ! i)) 0 0 [];
             symbols = butlast temp;
             prev = (if i = 0 then [] else filepath (names ! (i - 1)));
             L = (int (temp ! 0) - 0x38) + push_bit 3 (int (temp ! 1) - 0x20)
         in temp \<noteq> [] \<and> last temp = 0 \<and> 0 \<notin> set symbols
          \<and> (56 \<le> temp ! 0 \<longrightarrow> 2 \<le> length temp)
          \<and> filepath (names ! i) =
               (if temp ! 0 < 56
                then map ((!) BASE64CHARSET) (filter (\<lambda>c. c < 48) symbols)
                else (if 0 \<le> L then take (nat L) prev else take (length prev - nat (- L)) prev)
                     @ map ((!) BASE64CHARSET) (filter (\<lambda>c. c < 48) (drop 2 symbols)))"
proof -
  let ?temp = "dave_loop stringTable (nameOffset (entries ! i)) 0 0 []"
  from dave_loop_shape [of stringTable "nameOffset (entries ! i)" 0 0 "[]"]
  obtain gs where gs: "?temp = gs @ [0]" "0 \<notin> set gs" by auto
  have two: "2 \<le> length ?temp" if "56 \<le> ?temp ! 0"
  proof (cases gs)
    case Nil
    with gs that show ?thesis by simp
  next
    case (Cons g gs')
    with gs show ?thesis by simp
  qed
  from dave_names_nth [OF assms, of stringTable "[]"]
  have "filepath (dave_names stringTable [] entries ! i)
      = dave_path (if i = 0 then [] else filepath (dave_names stringTable [] entries ! (i - 1))) ?temp"
    by simp
  with gs two show ?thesis
    by (simp add: Let_def dave_path_def py_prefix_def literal_def)
qed

theorem dave_path_reconstruction_witness:
  "(1::nat) < length [\<lparr>nameOffset = 0, fileOffset = 0, uncompressedSize = 0, compressedSize = 0, filepath = []\<rparr>, \<lparr>nameOffset = 3, fileOffset = 0, uncompressedSize = 0, compressedSize = 0, filepath = []\<rparr>]
   \<and> dave_loop [CHR 0x95, CHR 0x05, CHR 0x00, CHR 0x39, CHR 0x78, CHR 0x01] 0 0 0 [] = [21, 22, 0]
   \<and> dave_loop [CHR 0x95, CHR 0x05, CHR 0x00, CHR 0x39, CHR 0x78, CHR 0x01] 3 0 0 [] = [57, 32, 23, 0]
   \<and> (int 57 - 0x38) + push_bit 3 (int 32 - 0x20) = 1
   \<and> filepath (dave_names [CHR 0x95, CHR 0x05, CHR 0x00, CHR 0x39, CHR 0x78, CHR 0x01] [] [\<lparr>nameOffset = 0, fileOffset = 0, uncompressedSize = 0, compressedSize = 0, filepath = []\<rparr>, \<lparr>nameOffset = 3, fileOffset = 0, uncompressedSize = 0, compressedSize = 0, filepath = []\<rparr>] ! 0) = ''ab''
   \<and> filepath (dave_names [CHR 0x95, CHR 0x05, CHR 0x00, CHR 0x39, CHR 0x78, CHR 0x01] [] [\<lparr>nameOffset = 0, fileOffset = 0, uncompressedSize = 0, compressedSize = 0, filepath = []\<rparr>, \<lparr>nameOffset = 3, fileOffset = 0, uncompressedSize = 0, compressedSize = 0, filepath = []\<rparr>] ! 1) = ''ac''"
proof -
  let ?es = "[\<lparr>nameOffset = 0, fileOffset = 0, uncompressedSize = 0, compressedSize = 0, filepath = []\<rparr>, \<lparr>nameOffset = 3, fileOffset = 0, uncompressedSize = 0, compressedSize = 0, filepath = []\<rparr>]"
  have l: "(1::nat) < length ?es" by simp
  have t0: "dave_loop [CHR 0x95, CHR 0x05, CHR 0x00, CHR 0x39, CHR 0x78, CHR 0x01] 0 0 0 [] = [21, 22, 0]"
    by (simp add: dave_loop_unfold dave_eval)
  have t1: "dave_loop [CHR 0x95, CHR 0x05, CHR 0x00, CHR 0x39, CHR 0x78, CHR 0x01] 3 0 0 [] = [57, 32, 23, 0]"
    by (simp add: dave_loop_unfold dave_eval)
  have n0: "filepath (dave_names [CHR 0x95, CHR 0x05, CHR 0x00, CHR 0x39, CHR 0x78, CHR 0x01] [] ?es ! 0) = ''ab''"
    by (simp add: Let_def t0 dave_path_def literal_def BASE64CHARSET_def)
  have o: "nameOffset (?es ! 1) = 3" by simp
  from dave_path_reconstruction [OF l, of "[CHR 0x95, CHR 0x05, CHR 0x00, CHR 0x39, CHR 0x78, CHR 0x01]"]
  have "filepath (dave_names [CHR 0x95, CHR 0x05, CHR 0x00, CHR 0x39, CHR 0x78, CHR 0x01] [] ?es ! 1) = ''ac''"
    unfolding Let_def o t1 using n0 by (simp add: BASE64CHARSET_def push_bit_eq_mult)
  with l t0 t1 n0 show ?thesis by (simp add: push_bit_eq_mult)
qed

theorem dave_negative_prefix_counterexample:
  "dave_loop [CHR 0x95, CHR 0x05, CHR 0x00, CHR 0xFF, CHR 0x07] 3 0 0 [] = [63, 31, 0]
   \<and> (int 63 - 0x38) + push_bit 3 (int 31 - 0x20) = - 1
   \<and> map filepath (dave_names [CHR 0x95, CHR 0x05, CHR 0x00, CHR 0xFF, CHR 0x07] [] [\<lparr>nameOffset = 0, fileOffset = 0, uncompressedSize = 0, compressedSize = 0, filepath = []\<rparr>, \<lparr>nameOffset = 3, fileOffset = 0, uncompressedSize = 0, compressedSize = 0, filepath = []\<rparr>]) = [''ab'', ''a'']
   \<and> take (nat (- 1)) ''ab'' @ literal (drop 2 (butlast [63, 31, 0])) = []"
proof -
  have t0: "dave_loop [CHR 0x95, CHR 0x05, CHR 0x00, CHR 0xFF, CHR 0x07] 0 0 0 [] = [21, 22, 0]"
    by (simp add: dave_loop_unfold dave_eval)
  have t1: "dave_loop [CHR 0x95, CHR 0x05, CHR 0x00, CHR 0xFF, CHR 0x07] 3 0 0 [] = [63, 31, 0]"
    by (simp add: dave_loop_unfold dave_eval)
  show ?thesis
    by (simp add: Let_def t0 t1 dave_path_def py_prefix_def literal_def BASE64CHARSET_def
          push_bit_eq_mult)
qed

subsection \<open>Extraction\<close>

lemma read_entries_filepath: "e \<in> set (read_entries file pos n) \<Longrightarrow> filepath e = []"
proof (induction n arbitrary: pos)
  case 0
  then show ?case by simp
next
  case (Suc n)
  obtain e0 pos' where i: "TOCEntry_init file pos = (e0, pos')" by (cases "TOCEntry_init file pos")
  then have "filepath e0 = []"
    by (auto simp: TOCEntry_init_def Let_def split: prod.splits)
  with Suc i show ?case by auto
qed

lemma extract_all_missing_root:
  assumes "\<not> path_exists os w outputDirectory" and "fileEntries \<noteq> []"
  shows "extract_all os inflate file outputDirectory fileEntries w
           = (Some (PyException ''Output directory does not exist''), w)"
  using assms by (cases fileEntries) simp_all

lemma unpack_no_entries:
  assumes "fst (read_u32 file (length (fread file 0 4))) = 0"
  shows "unpack os inflate file outputDirectory w = Some (None, w)"
proof -
  obtain n p1 where a: "read_u32 file (length (fread file 0 4)) = (n, p1)"
    by (cases "read_u32 file (length (fread file 0 4))")
  obtain t p2 where b: "read_u32 file p1 = (t, p2)" by (cases "read_u32 file p1")
  obtain s p3 where c: "read_u32 file p2 = (s, p3)" by (cases "read_u32 file p2")
  from assms a have n: "n = 0" by simp
  have "unpack_entries file = Some []"
    by (simp add: unpack_entries_def Let_def a b c n)
  then show ?thesis by (simp add: unpack_def)
qed

text \<open>
  Claim C6, amended.  \<^verbatim>\<open>unpack\<close> does not check the magic tag.  For a tag other than
  \<open>Dave\<close> and \<open>DAVE\<close> it reads the header and the table of contents as for any
  archive, decodes no name, so that every entry keeps the empty path, and goes on to
  the extraction loop with these entries; by itself the tag raises nothing, and an
  archive that declares no entries is unpacked successfully.
\<close>

theorem unpack_other_magic:
  assumes "fread file 0 4 \<noteq> ''Dave''" and "fread file 0 4 \<noteq> ''DAVE''"
  shows "unpack_entries file
           = Some (read_entries file 0x800 (fst (read_u32 file (length (fread file 0 4)))))
    \<and> unpack os inflate file outputDirectory w
           = Some (extract_all os inflate file outputDirectory
                (read_entries file 0x800 (fst (read_u32 file (length (fread file 0 4))))) w)
    \<and> (\<forall>e \<in> set (read_entries file 0x800 (fst (read_u32 file (length (fread file 0 4))))).
          filepath e = [])
    \<and> (fst (read_u32 file (length (fread file 0 4))) = 0 \<longrightarrow>
          unpack os inflate file outputDirectory w = Some (None, w))"
proof -
  obtain n p1 where a: "read_u32 file (length (fread file 0 4)) = (n, p1)"
    by (cases "read_u32 file (length (fread file 0 4))")
  obtain t p2 where b: "read_u32 file p1 = (t, p2)" by (cases "read_u32 file p1")
  obtain s p3 where c: "read_u32 file p2 = (s, p3)" by (cases "read_u32 file p2")
  have e: "unpack_entries file = Some (read_entries file 0x800 n)"
    using assms by (simp add: unpack_entries_def Let_def a b c)
  then have u: "unpack os inflate file outputDirectory w
           = Some (extract_all os inflate file outputDirectory (read_entries file 0x800 n) w)"
    by (simp add: unpack_def)
  have z: "n = 0 \<longrightarrow> unpack os inflate file outputDirectory w = Some (None, w)"
    using u by simp
  from e u z show ?thesis
    by (simp add: a read_entries_filepath)
qed

lemma fread_skip: "length pre = pos \<Longrightarrow> fread (pre @ rest) pos n = take n rest"
  by (simp add: fread_def)

theorem unpack_other_magic_witness:
  "fread (''XXXX'' @ [CHR 0x00, CHR 0x00, CHR 0x00, CHR 0x00, CHR 0x00, CHR 0x00, CHR 0x00, CHR 0x00, CHR 0x00, CHR 0x00, CHR 0x00, CHR 0x00]) 0 4 \<noteq> ''Dave''
   \<and> fread (''XXXX'' @ [CHR 0x00, CHR 0x00, CHR 0x00, CHR 0x00, CHR 0x00, CHR 0x00, CHR 0x00, CHR 0x00, CHR 0x00, CHR 0x00, CHR 0x00, CHR 0x00]) 0 4 \<noteq> ''DAVE''
   \<and> unpack_entries (''XXXX'' @ [CHR 0x00, CHR 0x00, CHR 0x00, CHR 0x00, CHR 0x00, CHR 0x00, CHR 0x00, CHR 0x00, CHR 0x00, CHR 0x00, CHR 0x00, CHR 0x00]) = Some []
   \<and> unpack mem_os Some (''XXXX'' @ [CHR 0x00, CHR 0x00, CHR 0x00, CHR 0x00, CHR 0x00, CHR 0x00, CHR 0x00, CHR 0x00, CHR 0x00, CHR 0x00, CHR 0x00, CHR 0x00]) ''out'' ([''out''], []) = Some (None, ([''out''], []))"
proof -
  let ?f = "''XXXX'' @ [CHR 0x00, CHR 0x00, CHR 0x00, CHR 0x00, CHR 0x00, CHR 0x00, CHR 0x00, CHR 0x00, CHR 0x00, CHR 0x00, CHR 0x00, CHR 0x00]"
  have m: "fread ?f 0 4 = ''XXXX''" by (simp add: fread_def)
  then have a: "fread ?f 0 4 \<noteq> ''Dave''" and b: "fread ?f 0 4 \<noteq> ''DAVE''" by simp_all
  have n: "fst (read_u32 ?f (length (fread ?f 0 4))) = 0"
    unfolding m by (simp add: read_u32_def fread_def from_bytes_def)
  from unpack_other_magic [OF a b, of mem_os Some "''out''" "([''out''], [])"] n a b
  show ?thesis by simp
qed

lemma other_magic_example:
  "unpack_entries (''XXXX'' @ [CHR 0x01, CHR 0x00, CHR 0x00, CHR 0x00, CHR 0x00, CHR 0x08, CHR 0x00, CHR 0x00, CHR 0x00, CHR 0x08, CHR 0x00, CHR 0x00] @ zeros 0x7F0 @ [CHR 0x04, CHR 0x00, CHR 0x00, CHR 0x00, CHR 0x02, CHR 0x00, CHR 0x00, CHR 0x00, CHR 0x03, CHR 0x00, CHR 0x00, CHR 0x00, CHR 0x03, CHR 0x00, CHR 0x00, CHR 0x00])
       = Some [\<lparr>nameOffset = 4, fileOffset = 2, uncompressedSize = 3, compressedSize = 3,
                 filepath = []\<rparr>]"
proof -
  let ?g = "''XXXX'' @ [CHR 0x01, CHR 0x00, CHR 0x00, CHR 0x00, CHR 0x00, CHR 0x08, CHR 0x00, CHR 0x00, CHR 0x00, CHR 0x08, CHR 0x00, CHR 0x00] @ zeros 0x7F0 @ [CHR 0x04, CHR 0x00, CHR 0x00, CHR 0x00, CHR 0x02, CHR 0x00, CHR 0x00, CHR 0x00, CHR 0x03, CHR 0x00, CHR 0x00, CHR 0x00, CHR 0x03, CHR 0x00, CHR 0x00, CHR 0x00]"
  have m: "fread ?g 0 4 = ''XXXX''" by (simp add: fread_def)
  have r1: "read_u32 ?g 4 = (1, 8)" by (simp add: read_u32_def fread_def from_bytes_def)
  have r2: "read_u32 ?g 8 = (0x800, 12)" by (simp add: read_u32_def fread_def from_bytes_def)
  have r3: "read_u32 ?g 12 = (0x800, 16)" by (simp add: read_u32_def fread_def from_bytes_def)
  have g: "?g = (''XXXX'' @ [CHR 0x01, CHR 0x00, CHR 0x00, CHR 0x00, CHR 0x00, CHR 0x08, CHR 0x00, CHR 0x00, CHR 0x00, CHR 0x08, CHR 0x00, CHR 0x00] @ zeros 0x7F0) @ [CHR 0x04, CHR 0x00, CHR 0x00, CHR 0x00, CHR 0x02, CHR 0x00, CHR 0x00, CHR 0x00, CHR 0x03, CHR 0x00, CHR 0x00, CHR 0x00, CHR 0x03, CHR 0x00, CHR 0x00, CHR 0x00] @ []" by simp
  have "struct_pack [4, 2, 3, 3] = Some [CHR 0x04, CHR 0x00, CHR 0x00, CHR 0x00, CHR 0x02, CHR 0x00, CHR 0x00, CHR 0x00, CHR 0x03, CHR 0x00, CHR 0x00, CHR 0x00, CHR 0x03, CHR 0x00, CHR 0x00, CHR 0x00]" by (simp add: pack_I_def char_of_def bit_Suc_0_iff)
  then have "TOCEntry_init ((''XXXX'' @ [CHR 0x01, CHR 0x00, CHR 0x00, CHR 0x00, CHR 0x00, CHR 0x08, CHR 0x00, CHR 0x00, CHR 0x00, CHR 0x08, CHR 0x00, CHR 0x00] @ zeros 0x7F0) @ [CHR 0x04, CHR 0x00, CHR 0x00, CHR 0x00, CHR 0x02, CHR 0x00, CHR 0x00, CHR 0x00, CHR 0x03, CHR 0x00, CHR 0x00, CHR 0x00, CHR 0x03, CHR 0x00, CHR 0x00, CHR 0x00] @ []) 0x800
      = (\<lparr>nameOffset = 4, fileOffset = 2, uncompressedSize = 3, compressedSize = 3, filepath = []\<rparr>,
         0x800 + 16)"
    by (rule TOCEntry_init_at) (simp add: zeros_def)
  then have e: "read_entries ?g 0x800 1
      = [\<lparr>nameOffset = 4, fileOffset = 2, uncompressedSize = 3, compressedSize = 3, filepath = []\<rparr>]"
    unfolding g [symmetric] by simp
  have l: "length ''XXXX'' = 4" by simp
  have "unpack_entries ?g = Some (read_entries ?g 0x800 1)"
    unfolding unpack_entries_def Let_def m l r1 prod.case r2 r3 by simp
  then show ?thesis unfolding e .
qed

theorem unpack_other_magic_counterexample:
  "unpack mem_os Some (''XXXX'' @ [CHR 0x00, CHR 0x00, CHR 0x00, CHR 0x00, CHR 0x00, CHR 0x00, CHR 0x00, CHR 0x00, CHR 0x00, CHR 0x00, CHR 0x00, CHR 0x00]) ''out'' ([''out''], []) = Some (None, ([''out''], []))
   \<and> unpack_entries (''XXXX'' @ [CHR 0x01, CHR 0x00, CHR 0x00, CHR 0x00, CHR 0x00, CHR 0x08, CHR 0x00, CHR 0x00, CHR 0x00, CHR 0x08, CHR 0x00, CHR 0x00] @ zeros 0x7F0 @ [CHR 0x04, CHR 0x00, CHR 0x00, CHR 0x00, CHR 0x02, CHR 0x00, CHR 0x00, CHR 0x00, CHR 0x03, CHR 0x00, CHR 0x00, CHR 0x00, CHR 0x03, CHR 0x00, CHR 0x00, CHR 0x00])
       = Some [\<lparr>nameOffset = 4, fileOffset = 2, uncompressedSize = 3, compressedSize = 3,
                 filepath = []\<rparr>]"
proof -
  let ?f = "''XXXX'' @ [CHR 0x00, CHR 0x00, CHR 0x00, CHR 0x00, CHR 0x00, CHR 0x00, CHR 0x00, CHR 0x00, CHR 0x00, CHR 0x00, CHR 0x00, CHR 0x00]"
  have "fst (read_u32 ?f (length (fread ?f 0 4))) = 0"
    by (simp add: read_u32_def fread_def from_bytes_def)
  then have "unpack mem_os Some ?f ''out'' ([''out''], []) = Some (None, ([''out''], []))"
    by (rule unpack_no_entries)
  with other_magic_example show ?thesis by simp
qed

text \<open>
  Claim C9, amended.  With a destination root that does not exist, \<^verbatim>\<open>unpack\<close> raises
  \<^verbatim>\<open>Exception("Output directory does not exist")\<close> at the first entry whenever the
  archive has at least one entry and its names decode; the check sits in the loop over
  the entries, so for an archive that declares no entries \<^verbatim>\<open>unpack\<close> returns
  normally.  Whenever it returns, with or without the exception, the destination is
  left as it was: the root is never created.
\<close>

theorem unpack_missing_root:
  assumes "\<not> path_exists os w outputDirectory"
  shows "(unpack_entries file = Some fileEntries \<and> fileEntries \<noteq> [] \<longrightarrow>
            unpack os inflate file outputDirectory w
              = Some (Some (PyException ''Output directory does not exist''), w))
    \<and> (fst (read_u32 file (length (fread file 0 4))) = 0 \<longrightarrow>
            unpack os inflate file outputDirectory w = Some (None, w))
    \<and> (\<forall>r w'. unpack os inflate file outputDirectory w = Some (r, w') \<longrightarrow> w' = w)"
proof (intro conjI impI allI)
  assume "unpack_entries file = Some fileEntries \<and> fileEntries \<noteq> []"
  with assms show "unpack os inflate file outputDirectory w
              = Some (Some (PyException ''Output directory does not exist''), w)"
    by (simp add: unpack_def extract_all_missing_root)
next
  assume "fst (read_u32 file (length (fread file 0 4))) = 0"
  then show "unpack os inflate file outputDirectory w = Some (None, w)"
    by (rule unpack_no_entries)
next
  fix r w'
  assume u: "unpack os inflate file outputDirectory w = Some (r, w')"
  then obtain es where es: "unpack_entries file = Some es"
    by (cases "unpack_entries file") (simp_all add: unpack_def)
  show "w' = w"
  proof (cases "es = []")
    case True
    with u es show ?thesis by (simp add: unpack_def)
  next
    case False
    with u es assms show ?thesis by (simp add: unpack_def extract_all_missing_root)
  qed
qed

theorem unpack_missing_root_witness:
  "\<not> path_exists mem_os ([], []) ''out''
   \<and> unpack_entries (''XXXX'' @ [CHR 0x01, CHR 0x00, CHR 0x00, CHR 0x00, CHR 0x00, CHR 0x08, CHR 0x00, CHR 0x00, CHR 0x00, CHR 0x08, CHR 0x00, CHR 0x00] @ zeros 0x7F0 @ [CHR 0x04, CHR 0x00, CHR 0x00, CHR 0x00, CHR 0x02, CHR 0x00, CHR 0x00, CHR 0x00, CHR 0x03, CHR 0x00, CHR 0x00, CHR 0x00, CHR 0x03, CHR 0x00, CHR 0x00, CHR 0x00])
       = Some [\<lparr>nameOffset = 4, fileOffset = 2, uncompressedSize = 3, compressedSize = 3,
                 filepath = []\<rparr>]
   \<and> unpack mem_os Some (''XXXX'' @ [CHR 0x01, CHR 0x00, CHR 0x00, CHR 0x00, CHR 0x00, CHR 0x08, CHR 0x00, CHR 0x00, CHR 0x00, CHR 0x08, CHR 0x00, CHR 0x00] @ zeros 0x7F0 @ [CHR 0x04, CHR 0x00, CHR 0x00, CHR 0x00, CHR 0x02, CHR 0x00, CHR 0x00, CHR 0x00, CHR 0x03, CHR 0x00, CHR 0x00, CHR 0x00, CHR 0x03, CHR 0x00, CHR 0x00, CHR 0x00]) ''out'' ([], [])
       = Some (Some (PyException ''Output directory does not exist''), ([], []))"
proof -
  have a: "\<not> path_exists mem_os ([], []) ''out''" by (simp add: mem_os_def)
  from unpack_missing_root [OF a, of "''XXXX'' @ [CHR 0x01, CHR 0x00, CHR 0x00, CHR 0x00, CHR 0x00, CHR 0x08, CHR 0x00, CHR 0x00, CHR 0x00, CHR 0x08, CHR 0x00, CHR 0x00] @ zeros 0x7F0 @ [CHR 0x04, CHR 0x00, CHR 0x00, CHR 0x00, CHR 0x02, CHR 0x00, CHR 0x00, CHR 0x00, CHR 0x03, CHR 0x00, CHR 0x00, CHR 0x00, CHR 0x03, CHR 0x00, CHR 0x00, CHR 0x00]"
      "[\<lparr>nameOffset = 4, fileOffset = 2, uncompressedSize = 3, compressedSize = 3,
                 filepath = []\<rparr>]" Some]
    other_magic_example a
  show ?thesis by simp
qed

text \<open>
  The archive of an empty asset tree (the header alone, \<open>entryCount = 0\<close>) and a
  destination root that does not exist: \<^verbatim>\<open>unpack\<close> returns normally.
\<close>

theorem unpack_empty_archive_missing_root:
  "pack (\<lambda>p. None) id [] False = Inr (''DAVE'' @ [CHR 0x00, CHR 0x00, CHR 0x00, CHR 0x00, CHR 0x00, CHR 0x00, CHR 0x00, CHR 0x00, CHR 0x00, CHR 0x00, CHR 0x00, CHR 0x00] @ zeros 0x7F0)
   \<and> \<not> path_exists mem_os ([], []) ''out''
   \<and> unpack mem_os Some (''DAVE'' @ [CHR 0x00, CHR 0x00, CHR 0x00, CHR 0x00, CHR 0x00, CHR 0x00, CHR 0x00, CHR 0x00, CHR 0x00, CHR 0x00, CHR 0x00, CHR 0x00] @ zeros 0x7F0) ''out'' ([], []) = Some (None, ([], []))"
proof -
  let ?f = "''DAVE'' @ [CHR 0x00, CHR 0x00, CHR 0x00, CHR 0x00, CHR 0x00, CHR 0x00, CHR 0x00, CHR 0x00, CHR 0x00, CHR 0x00, CHR 0x00, CHR 0x00] @ zeros 0x7F0"
  have p: "pack (\<lambda>p. None) id [] False = Inr ?f"
    by (simp add: pack_def pack_parts_def pack_I_def Padding_def write_archive_def zeros_def
          char_of_def)
  have "fst (read_u32 ?f (length (fread ?f 0 4))) = 0"
    by (simp add: read_u32_def fread_def from_bytes_def)
  then have "unpack mem_os Some ?f ''out'' ([], []) = Some (None, ([], []))"
    by (rule unpack_no_entries)
  with p show ?thesis by (simp add: mem_os_def)
qed

subsection \<open>The declared and the written length of the string table\<close>

lemma length_join_sep:
  "paths \<noteq> [] \<Longrightarrow> length (join_sep [c] paths) + 1 = sum_list (map (\<lambda>p. length p + 1) paths)"
  by (induction "[c]" paths rule: join_sep.induct) simp_all

lemma Padding_succ_aligned:
  assumes "0 < pad" and "n mod pad = 0" and "1 < pad"
  shows "Padding (n + 1) pad False = n + pad"
proof -
  from assms have "(n + 1) mod pad = 1"
    by (metis mod_add_left_eq add_0 mod_less)
  then show ?thesis by (simp add: Padding_def)
qed

lemma Padding_succ_unaligned:
  assumes "n mod pad \<noteq> 0" and "0 < pad"
  shows "Padding (n + 1) pad False = Padding n pad False"
proof (cases "(n + 1) mod pad = 0")
  case True
  then have "Suc (n mod pad) = pad"
    using assms by (metis Suc_eq_plus1 mod_Suc neq0_conv nat.simps(3))
  then have "n + pad - n mod pad = n + 1" by arith
  with True assms show ?thesis by (simp add: Padding_def)
next
  case False
  then have "(n + 1) mod pad = n mod pad + 1"
    by (metis Suc_eq_plus1 mod_Suc)
  moreover have "n mod pad < pad" using assms by simp
  ultimately have "n + 1 + pad - (n + 1) mod pad = n + pad - n mod pad" by arith
  with False assms show ?thesis by (simp add: Padding_def)
qed

subsection \<open>The layout of a packed archive\<close>

lemma length_TOCBinary:
  assumes "pack_parts src deflate names compress = Inr a"
  shows "length (TOCBinary a) = 16 * length names"
proof -
  from assms obtain ba bb bc where
    l: "pack_loop src deflate compress (sort names) 0
       (0x800 + Padding (length names * 16) 0x800 False
         + Padding (sum_list (map (\<lambda>path. length path + 1) (sort names))) 0x800 False) [] []
       = Inr (TOCBinary a, filesBinary a)"
    by (rule pack_parts_Inr)
  from pack_loop_toc_prefix [OF l] show ?thesis by auto
qed

lemma length_padded: "length (b @ zeros (Padding (length b) 0x800 True)) = Padding (length b) 0x800 False"
  by (simp add: zeros_def Padding_split)

lemma length_TOC_region:
  assumes "pack_parts src deflate names compress = Inr a"
  shows "length (TOCBinary a @ zeros (Padding (length (TOCBinary a)) 0x800 True))
           = Padding (length names * 16) 0x800 False"
proof -
  have e: "length (TOCBinary a) = length names * 16"
    using length_TOCBinary [OF assms] by simp
  have "length (TOCBinary a @ zeros (Padding (length (TOCBinary a)) 0x800 True))
      = Padding (length (TOCBinary a)) 0x800 False"
    by (rule length_padded)
  then show ?thesis unfolding e .
qed

lemma archive_string_table:
  assumes "pack_parts src deflate names compress = Inr a"
  shows "fread (write_archive a) (0x800 + Padding (length names * 16) 0x800 False) n
    = take n ((stringTableBinary a @ zeros (Padding (length (stringTableBinary a)) 0x800 True))
              @ filesBinary a)"
proof -
  let ?pre = "Header a @ TOCBinary a @ zeros (Padding (length (TOCBinary a)) 0x800 True)"
  have w: "write_archive a = ?pre
      @ ((stringTableBinary a @ zeros (Padding (length (stringTableBinary a)) 0x800 True))
         @ filesBinary a)"
    by (simp add: write_archive_def)
  have "length ?pre = 0x800 + Padding (length names * 16) 0x800 False"
    using length_Header [OF assms] length_TOC_region [OF assms] by simp
  then show ?thesis unfolding w by (rule fread_skip)
qed

lemma fread_skip_off: "length pre = p \<Longrightarrow> fread (pre @ rest) (p + off) n = take n (drop off rest)"
  by (simp add: fread_def)

lemma archive_payload:
  assumes "pack_parts src deflate names compress = Inr a"
  shows "fread (write_archive a)
           (0x800 + Padding (length names * 16) 0x800 False
             + Padding (length (stringTableBinary a)) 0x800 False + off) n
    = take n (drop off (filesBinary a))"
proof -
  let ?pre = "Header a @ (TOCBinary a @ zeros (Padding (length (TOCBinary a)) 0x800 True))
      @ (stringTableBinary a @ zeros (Padding (length (stringTableBinary a)) 0x800 True))"
  have w: "write_archive a = ?pre @ filesBinary a"
    by (simp add: write_archive_def)
  have "length ?pre = 0x800 + Padding (length names * 16) 0x800 False
      + Padding (length (stringTableBinary a)) 0x800 False"
    using length_Header [OF assms] length_TOC_region [OF assms]
      length_padded [of "stringTableBinary a"] by simp
  then show ?thesis unfolding w by (rule fread_skip_off)
qed

lemma unpack_entries_pack:
  assumes "pack_parts src deflate names compress = Inr a"
  shows "unpack_entries (write_archive a)
    = raw_names
        (fread (write_archive a) (0x800 + Padding (length names * 16) 0x800 False)
           (Padding (sum_list (map (\<lambda>path. length path + 1) (sort names))) 0x800 False))
        (toc_model src deflate compress (sort names) 0
           (0x800 + Padding (length names * 16) 0x800 False
             + Padding (sum_list (map (\<lambda>path. length path + 1) (sort names))) 0x800 False))"
proof -
  note h = header_fields [OF assms]
  have l: "length ''DAVE'' = 4" by simp
  show ?thesis
    unfolding unpack_entries_def Let_def h(1) l h(2) prod.case h(3) h(4)
    by (simp add: pack_read_entries [OF assms])
qed

lemma raw_names_Some:
  assumes "length ps = length es"
    and "\<And>i. i < length es \<Longrightarrow> raw_loop st (nameOffset (es ! i)) (filepath (es ! i)) = Some (ps ! i)"
  shows "raw_names st es = Some (map (\<lambda>(e, p). e\<lparr>filepath := p\<rparr>) (zip es ps))"
  using assms
proof (induction es arbitrary: ps)
  case Nil
  then show ?case by simp
next
  case (Cons e es)
  then obtain p ps' where ps: "ps = p # ps'" by (cases ps) simp_all
  from Cons.prems(2) [of 0] ps have h: "raw_loop st (nameOffset e) (filepath e) = Some p" by simp
  have "raw_names st es = Some (map (\<lambda>(e, p). e\<lparr>filepath := p\<rparr>) (zip es ps'))"
  proof (rule Cons.IH)
    show "length ps' = length es" using Cons.prems(1) ps by simp
    fix i assume "i < length es"
    then show "raw_loop st (nameOffset (es ! i)) (filepath (es ! i)) = Some (ps' ! i)"
      using Cons.prems(2) [of "Suc i"] ps by simp
  qed
  with h ps show ?case by simp
qed

subsection \<open>Reading back what the packer wrote\<close>

lemma pack_loop_entry_data:
  assumes "pack_loop src deflate compress paths no fo toc files = Inr r" and "p \<in> set paths"
  shows "\<exists>d u c. entry_data src deflate compress p = Inr (d, u, c)"
  using assms
proof (induction paths arbitrary: no fo toc files)
  case Nil
  then show ?case by simp
next
  case (Cons path rest)
  from Cons.prems(1) obtain data u c r' where
    ed: "entry_data src deflate compress path = Inr (data, u, c)" and
    rec: "pack_loop src deflate compress rest (no + (length path + 1))
            (fo + Padding (length data) 0x800 False) (toc @ r') (files @ payload_block data)
          = Inr r"
    by (auto simp del: struct_pack.simps split: sum.splits option.splits prod.splits)
  show ?case
  proof (cases "p = path")
    case True
    with ed show ?thesis by blast
  next
    case False
    with Cons.prems(2) have "p \<in> set rest" by simp
    from Cons.IH [OF rec this] show ?thesis .
  qed
qed

lemma entry_data_sizes:
  assumes "entry_data src deflate compress p = Inr (d, u, c)"
  shows "c = length d" and "\<not> compress \<Longrightarrow> u = length d"
  using assms by (auto simp: entry_data_def split: if_splits option.splits)

lemma drop_concat_blocks:
  "i \<le> length bs \<Longrightarrow> drop (sum_list (map length (take i bs))) (concat bs) = concat (drop i bs)"
proof (induction bs arbitrary: i)
  case Nil
  then show ?case by simp
next
  case (Cons b bs)
  show ?case
  proof (cases i)
    case 0
    then show ?thesis by simp
  next
    case (Suc j)
    with Cons.prems have "j \<le> length bs" by simp
    from Cons.IH [OF this] Suc show ?thesis by simp
  qed
qed

lemma payload_at:
  assumes "i < length paths"
  shows "take (length (f (paths ! i)))
           (drop (sum_list (map (\<lambda>p. Padding (length (f p)) 0x800 False) (take i paths)))
              (concat (map (\<lambda>p. payload_block (f p)) paths)))
         = f (paths ! i)"
proof -
  let ?bs = "map (\<lambda>p. payload_block (f p)) paths"
  have l: "map length (take i ?bs) = map (\<lambda>p. Padding (length (f p)) 0x800 False) (take i paths)"
    by (simp add: take_map length_payload_block)
  from assms have "i \<le> length ?bs" by simp
  from drop_concat_blocks [OF this]
  have "drop (sum_list (map (\<lambda>p. Padding (length (f p)) 0x800 False) (take i paths))) (concat ?bs)
      = concat (drop i ?bs)"
    unfolding l .
  also have "drop i ?bs = payload_block (f (paths ! i)) # drop (Suc i) ?bs"
  proof -
    from assms have "i < length ?bs" by simp
    then have "drop i ?bs = ?bs ! i # drop (Suc i) ?bs" by (rule Cons_nth_drop_Suc [symmetric])
    with assms show ?thesis by simp
  qed
  finally show ?thesis by (simp add: payload_block_def)
qed

lemma raw_loop_joined:
  assumes "i < length paths" and "CHR 0x00 \<notin> set (paths ! i)"
  shows "raw_loop (join_sep [CHR 0x00] paths @ CHR 0x00 # rest)
           (sum_list (map (\<lambda>p. length p + 1) (take i paths))) [] = Some (paths ! i)"
proof -
  from assms(1) have ne: "paths \<noteq> []" by auto
  have "join_sep [CHR 0x00] paths @ CHR 0x00 # rest
      = (join_sep [CHR 0x00] paths @ [CHR 0x00]) @ rest"
    by simp
  also have "\<dots> = concat (map (\<lambda>p. p @ [CHR 0x00]) paths) @ rest"
    unfolding join_sep_terminated [OF ne] ..
  finally have eq: "join_sep [CHR 0x00] paths @ CHR 0x00 # rest
      = concat (map (\<lambda>p. p @ [CHR 0x00]) paths) @ rest" .
  show ?thesis
    unfolding eq using raw_loop_terminated [OF assms, of rest "[]"] by simp
qed

lemma unpack_pack_entries:
  assumes P: "pack_parts src deflate names compress = Inr a"
    and Z: "\<forall>p\<in>set names. CHR 0x00 \<notin> set p"
    and NS: "length (stringTableBinary a) mod 0x800 \<noteq> 0"
  shows "\<exists>es. unpack_entries (write_archive a) = Some es
          \<and> map filepath es = sort names
          \<and> (\<forall>i<length names.
                fread (write_archive a) (fileOffset (es ! i)) (compressedSize (es ! i))
                  = entry_payload src deflate compress (sort names ! i)
                \<and> compressedSize (es ! i)
                  = length (entry_payload src deflate compress (sort names ! i))
                \<and> uncompressedSize (es ! i)
                  = (case entry_data src deflate compress (sort names ! i) of
                       Inl e \<Rightarrow> 0 | Inr (d, u, c) \<Rightarrow> u))"
proof -
  let ?st = "sort names"
  let ?T = "Padding (length names * 16) 0x800 False"
  let ?S = "Padding (sum_list (map (\<lambda>path. length path + 1) ?st)) 0x800 False"
  let ?L = "length (stringTableBinary a)"
  let ?k = "Padding ?L 0x800 True"
  let ?tm = "toc_model src deflate compress ?st 0 (0x800 + ?T + ?S)"
  from P obtain ba bb bc where
    loop: "pack_loop src deflate compress ?st 0 (0x800 + ?T + ?S) [] []
       = Inr (TOCBinary a, filesBinary a)"
    and stb: "stringTableBinary a = join_sep [CHR 0x00] ?st"
    by (rule pack_parts_Inr)
  have files: "filesBinary a
      = concat (map (\<lambda>path. payload_block (entry_payload src deflate compress path)) ?st)"
    using pack_loop_files [OF loop] by simp
  from NS have "?L \<noteq> 0" by (metis mod_0)
  then have ne: "?st \<noteq> []" unfolding stb by auto
  have L1: "?L + 1 = sum_list (map (\<lambda>path. length path + 1) ?st)"
    unfolding stb by (rule length_join_sep [OF ne])
  have S: "?S = Padding ?L 0x800 False"
    unfolding L1 [symmetric] by (rule Padding_succ_unaligned [OF NS]) simp
  have kpos: "0 < ?k" using NS by (simp add: Padding_def)
  then have zk: "zeros ?k = CHR 0x00 # zeros (?k - 1)"
    by (cases ?k) (simp_all add: zeros_def)
  let ?reg = "stringTableBinary a @ zeros ?k"
  have lreg: "length ?reg = ?S" unfolding S by (rule length_padded)
  have table: "fread (write_archive a) (0x800 + ?T) ?S = join_sep [CHR 0x00] ?st @ CHR 0x00 # zeros (?k - 1)"
  proof -
    have "fread (write_archive a) (0x800 + ?T) ?S = take ?S (?reg @ filesBinary a)"
      by (rule archive_string_table [OF P])
    also have "\<dots> = ?reg" using lreg by simp
    also have "\<dots> = join_sep [CHR 0x00] ?st @ CHR 0x00 # zeros (?k - 1)"
      unfolding stb [symmetric] using zk by simp
    finally show ?thesis .
  qed
  have ltm: "length ?tm = length ?st" by (rule length_toc_model)
  have names_ok: "raw_loop (fread (write_archive a) (0x800 + ?T) ?S)
        (nameOffset (?tm ! i)) (filepath (?tm ! i)) = Some (?st ! i)" if "i < length ?tm" for i
  proof -
    from that ltm have i: "i < length ?st" by simp
    then have "?st ! i \<in> set ?st" by (rule nth_mem)
    with Z have nz: "CHR 0x00 \<notin> set (?st ! i)" by simp
    show ?thesis
      unfolding table toc_model_nth [OF i]
      using raw_loop_joined [OF i nz, of "zeros (?k - 1)"] by simp
  qed
  let ?es = "map (\<lambda>(e, p). e\<lparr>filepath := p\<rparr>) (zip ?tm ?st)"
  have rn: "raw_names (fread (write_archive a) (0x800 + ?T) ?S) ?tm = Some ?es"
  proof (rule raw_names_Some)
    show "length ?st = length ?tm" using ltm by (rule sym)
    fix i assume "i < length ?tm"
    then show "raw_loop (fread (write_archive a) (0x800 + ?T) ?S)
        (nameOffset (?tm ! i)) (filepath (?tm ! i)) = Some (?st ! i)"
      by (rule names_ok)
  qed
  have ue: "unpack_entries (write_archive a) = Some ?es"
    unfolding unpack_entries_pack [OF P] by (rule rn)
  have fp: "map filepath ?es = ?st"
  proof -
    have "map filepath ?es = map snd (zip ?tm ?st)"
      by (simp add: split_def del: toc_model.simps)
    also have "\<dots> = ?st" using ltm by (simp add: map_snd_zip del: toc_model.simps)
    finally show ?thesis .
  qed
  have each: "fread (write_archive a) (fileOffset (?es ! i)) (compressedSize (?es ! i))
                  = entry_payload src deflate compress (?st ! i)
                \<and> compressedSize (?es ! i) = length (entry_payload src deflate compress (?st ! i))
                \<and> uncompressedSize (?es ! i)
                  = (case entry_data src deflate compress (?st ! i) of
                       Inl e \<Rightarrow> 0 | Inr (d, u, c) \<Rightarrow> u)"
    if "i < length names" for i
  proof -
    from that have i: "i < length ?st" by simp
    then have mem: "?st ! i \<in> set ?st" by (rule nth_mem)
    from pack_loop_entry_data [OF loop mem] obtain d u c where
      ed: "entry_data src deflate compress (?st ! i) = Inr (d, u, c)" by blast
    then have ep: "entry_payload src deflate compress (?st ! i) = d"
      by (simp add: entry_payload_def)
    from entry_data_sizes(1) [OF ed] have c: "c = length d" .
    have ei: "?es ! i = (?tm ! i)\<lparr>filepath := ?st ! i\<rparr>"
      using i ltm by (simp del: toc_model.simps)
    let ?off = "sum_list (map (\<lambda>p. Padding (length (entry_payload src deflate compress p)) 0x800 False)
                 (take i ?st))"
    have fo': "fileOffset (?es ! i) = 0x800 + ?T + ?S + ?off"
      by (subst ei, subst toc_model_nth [OF i]) simp
    have fo: "fileOffset (?es ! i) = 0x800 + ?T + Padding ?L 0x800 False + ?off"
      using fo' S by simp
    have cs: "compressedSize (?es ! i) = length d"
      by (subst ei, subst toc_model_nth [OF i]) (simp add: ed c)
    have us: "uncompressedSize (?es ! i) = u"
      by (subst ei, subst toc_model_nth [OF i]) (simp add: ed)
    have "fread (write_archive a) (fileOffset (?es ! i)) (compressedSize (?es ! i))
        = take (length d) (drop ?off (filesBinary a))"
      unfolding fo cs by (rule archive_payload [OF P])
    also have "\<dots> = d"
      unfolding files using payload_at [OF i, of "entry_payload src deflate compress"] ep by simp
    finally show ?thesis using cs us ep ed by simp
  qed
  from ue fp each show ?thesis by blast
qed

subsection \<open>A string table whose joined length is a multiple of the block size\<close>

lemma aligned_declared:
  assumes P: "pack_parts src deflate names compress = Inr a"
    and AL: "length (stringTableBinary a) mod 0x800 = 0"
    and NE: "names \<noteq> []"
  shows "Padding (sum_list (map (\<lambda>path. length path + 1) (sort names))) 0x800 False
           = length (stringTableBinary a) + 0x800"
    and "Padding (length (stringTableBinary a)) 0x800 True = 0"
    and "Padding (length (stringTableBinary a)) 0x800 False = length (stringTableBinary a)"
proof -
  from P obtain ba bb bc where stb: "stringTableBinary a = join_sep [CHR 0x00] (sort names)"
    by (rule pack_parts_Inr)
  from NE have ne: "sort names \<noteq> []" by (metis length_sort length_0_conv)
  have L1: "length (stringTableBinary a) + 1 = sum_list (map (\<lambda>path. length path + 1) (sort names))"
    unfolding stb by (rule length_join_sep [OF ne])
  show "Padding (sum_list (map (\<lambda>path. length path + 1) (sort names))) 0x800 False
           = length (stringTableBinary a) + 0x800"
    unfolding L1 [symmetric] by (rule Padding_succ_aligned [OF _ AL]) simp_all
  from AL show "Padding (length (stringTableBinary a)) 0x800 True = 0"
    by (simp add: Padding_def)
  from AL show "Padding (length (stringTableBinary a)) 0x800 False = length (stringTableBinary a)"
    by (simp add: Padding_def)
qed

lemma aligned_table:
  assumes P: "pack_parts src deflate names compress = Inr a"
    and AL: "length (stringTableBinary a) mod 0x800 = 0"
    and NE: "names \<noteq> []"
  shows "fread (write_archive a) (0x800 + Padding (length names * 16) 0x800 False)
           (Padding (sum_list (map (\<lambda>path. length path + 1) (sort names))) 0x800 False)
         = stringTableBinary a @ take 0x800 (filesBinary a)"
  unfolding archive_string_table [OF P] aligned_declared [OF P AL NE]
  by (simp add: zeros_def)

lemma aligned_payload:
  assumes P: "pack_parts src deflate names compress = Inr a"
    and AL: "length (stringTableBinary a) mod 0x800 = 0"
    and NE: "names \<noteq> []"
  shows "fread (write_archive a)
           (0x800 + Padding (length names * 16) 0x800 False
             + Padding (sum_list (map (\<lambda>path. length path + 1) (sort names))) 0x800 False + off) n
         = take n (drop (0x800 + off) (filesBinary a))"
proof -
  have eq: "0x800 + Padding (length names * 16) 0x800 False
             + Padding (sum_list (map (\<lambda>path. length path + 1) (sort names))) 0x800 False + off
      = 0x800 + Padding (length names * 16) 0x800 False
             + Padding (length (stringTableBinary a)) 0x800 False + (0x800 + off)"
    unfolding aligned_declared [OF P AL NE] by simp
  show ?thesis unfolding eq by (rule archive_payload [OF P])
qed

lemma raw_names_None:
  assumes "i < length es"
    and "raw_loop st (nameOffset (es ! i)) (filepath (es ! i)) = None"
  shows "raw_names st es = None"
  using assms
proof (induction es arbitrary: i)
  case Nil
  then show ?case by simp
next
  case (Cons e es)
  show ?case
  proof (cases i)
    case 0
    with Cons.prems(2) show ?thesis by simp
  next
    case (Suc j)
    with Cons.prems have "j < length es"
      and "raw_loop st (nameOffset (es ! j)) (filepath (es ! j)) = None" by simp_all
    from Cons.IH [OF this] show ?thesis by (simp split: option.splits)
  qed
qed

subsection \<open>Nine files whose names join to 2048 bytes\<close>

lemma endswith_slash: "endswith s ''/'' = (s \<noteq> [] \<and> last s = CHR ''/'')"
  by (cases s rule: rev_cases) (simp_all add: endswith_def)

lemma length_long_name: "length (long_name c n) = n + 1"
  by (simp add: long_name_def)

lemma sorted_aligned_tree: "sort aligned_tree = aligned_tree"
  by (rule sorted_sort_id) (simp add: aligned_tree_def long_name_def)

lemma aligned_tree_sum: "sum_list (map (\<lambda>path. length path + 1) aligned_tree) = 2049"
  by (simp add: aligned_tree_def length_long_name)

lemma length_aligned_tree: "length aligned_tree = 9"
  by (simp add: aligned_tree_def)

lemma aligned_tree_zero_free: "CHR 0x00 \<notin> set (concat aligned_tree)"
  by (simp add: aligned_tree_def long_name_def)

lemma aligned_string_table:
  assumes "pack_parts src deflate aligned_tree compress = Inr a"
  shows "stringTableBinary a = join_sep [CHR 0x00] aligned_tree"
    and "length (stringTableBinary a) = 2048"
proof -
  from assms obtain ba bb bc where stb: "stringTableBinary a = join_sep [CHR 0x00] (sort aligned_tree)"
    by (rule pack_parts_Inr)
  then show s: "stringTableBinary a = join_sep [CHR 0x00] aligned_tree"
    unfolding sorted_aligned_tree .
  have "aligned_tree \<noteq> []" by (simp add: aligned_tree_def)
  from length_join_sep [OF this, of "CHR 0x00"] show "length (stringTableBinary a) = 2048"
    unfolding s aligned_tree_sum by simp
qed

lemma aligned_files:
  assumes "pack_parts src deflate aligned_tree compress = Inr a"
  shows "filesBinary a
      = concat (map payload_block (map (entry_payload src deflate compress) aligned_tree))"
proof -
  from assms obtain ba bb bc where
    loop: "pack_loop src deflate compress (sort aligned_tree) 0
       (0x800 + Padding (length aligned_tree * 16) 0x800 False
         + Padding (sum_list (map (\<lambda>path. length path + 1) (sort aligned_tree))) 0x800 False) [] []
       = Inr (TOCBinary a, filesBinary a)"
    by (rule pack_parts_Inr)
  have "filesBinary a
      = concat (map (\<lambda>path. payload_block (entry_payload src deflate compress path))
                 (sort aligned_tree))"
    using pack_loop_files [OF loop] by simp
  then show ?thesis
    unfolding sorted_aligned_tree by (simp add: comp_def)
qed

lemma empty_pack_parts_ok: "\<exists>a. pack_parts empty_src deflate aligned_tree False = Inr a"
  by (simp add: pack_parts_def sorted_aligned_tree pack_I_def Padding_def aligned_tree_sum
        length_aligned_tree)
     (simp add: aligned_tree_def entry_data_def endswith_slash empty_src_def
        long_name_def pack_I_def Padding_def)

lemma empty_files:
  assumes "pack_parts empty_src deflate aligned_tree False = Inr a"
  shows "filesBinary a = []"
  unfolding aligned_files [OF assms]
  by (simp add: aligned_tree_def entry_payload_def entry_data_def endswith_slash empty_src_def
        long_name_def payload_block_Nil)

text \<open>
  Claim C4 does not hold of the string table \<^verbatim>\<open>pack\<close> writes for nine files whose
  names, free of zero bytes, join to \<open>0x800\<close> bytes.  The header declares a string table
  of \<open>0x1000\<close> bytes, but the table is written without a terminator and, its length
  being a multiple of \<open>0x800\<close>, without padding: with nine empty files what \<^verbatim>\<open>unpack\<close>
  reads as the string table is the joined names alone.  The name offset of the last
  entry is the running byte count of the earlier names and their separators; from
  there the name loop meets no zero byte and does not return, and neither does
  \<^verbatim>\<open>unpack\<close>.
\<close>

theorem aligned_table_last_name:
  "\<exists>a. pack_parts empty_src id aligned_tree False = Inr a
     \<and> CHR 0x00 \<notin> set (concat aligned_tree)
     \<and> read_u32 (write_archive a) 8 = (0x800, 12)
     \<and> read_u32 (write_archive a) 12 = (0x1000, 16)
     \<and> fread (write_archive a) (0x800 + 0x800) 0x1000 = join_sep [CHR 0x00] aligned_tree
     \<and> length (join_sep [CHR 0x00] aligned_tree) = 0x800
     \<and> nameOffset (read_entries (write_archive a) 0x800 9 ! 8)
         = sum_list (map (\<lambda>p. length p + 1) (butlast aligned_tree))
     \<and> raw_loop (join_sep [CHR 0x00] aligned_tree)
         (sum_list (map (\<lambda>p. length p + 1) (butlast aligned_tree))) [] = None
     \<and> unpack_entries (write_archive a) = None
     \<and> unpack mem_os inflate (write_archive a) ''out'' ([''out''], []) = None"
proof -
  from empty_pack_parts_ok obtain a where a: "pack_parts empty_src id aligned_tree False = Inr a"
    by blast
  note stb = aligned_string_table [OF a]
  have AL: "length (stringTableBinary a) mod 0x800 = 0" unfolding stb(2) by simp
  have NE: "aligned_tree \<noteq> []" by (simp add: aligned_tree_def)
  have T: "Padding (length aligned_tree * 16) 0x800 False = 0x800"
    unfolding length_aligned_tree by (simp add: Padding_def)
  have S: "Padding (sum_list (map (\<lambda>path. length path + 1) (sort aligned_tree))) 0x800 False = 0x1000"
    unfolding sorted_aligned_tree aligned_tree_sum by (simp add: Padding_def)
  note h = header_fields [OF a, unfolded T, unfolded S]
  have table: "fread (write_archive a) (0x800 + 0x800) 0x1000 = join_sep [CHR 0x00] aligned_tree"
    using aligned_table [OF a AL NE, unfolded T, unfolded S] empty_files [OF a] stb(1) by simp
  let ?tm = "toc_model empty_src id False aligned_tree 0 (0x800 + 0x800 + 0x1000)"
  have re: "read_entries (write_archive a) 0x800 9 = ?tm"
    using pack_read_entries [OF a, unfolded T, unfolded S, unfolded sorted_aligned_tree
        length_aligned_tree] .
  have i: "8 < length aligned_tree" unfolding length_aligned_tree by simp
  have bl: "take 8 aligned_tree = butlast aligned_tree" by (simp add: aligned_tree_def)
  have no: "nameOffset (?tm ! 8) = sum_list (map (\<lambda>p. length p + 1) (butlast aligned_tree))"
    and fp: "filepath (?tm ! 8) = []"
    unfolding toc_model_nth [OF i] bl by simp_all
  have "CHR 0x00 \<notin> set (last aligned_tree)" by (simp add: aligned_tree_def long_name_def)
  from raw_loop_unterminated [OF NE this]
  have rl: "raw_loop (join_sep [CHR 0x00] aligned_tree)
         (sum_list (map (\<lambda>p. length p + 1) (butlast aligned_tree))) [] = None" .
  have "raw_names (join_sep [CHR 0x00] aligned_tree) ?tm = None"
  proof (rule raw_names_None [of 8])
    show "8 < length ?tm" unfolding length_toc_model length_aligned_tree by simp
    show "raw_loop (join_sep [CHR 0x00] aligned_tree) (nameOffset (?tm ! 8)) (filepath (?tm ! 8)) = None"
      unfolding no fp by (rule rl)
  qed
  then have ue: "unpack_entries (write_archive a) = None"
    using unpack_entries_pack [OF a, unfolded T, unfolded S, unfolded sorted_aligned_tree table]
    by simp
  have no': "nameOffset (read_entries (write_archive a) 0x800 9 ! 8)
         = sum_list (map (\<lambda>p. length p + 1) (butlast aligned_tree))"
    unfolding re by (rule no)
  have un: "unpack mem_os inflate (write_archive a) ''out'' ([''out''], []) = None"
    unfolding unpack_def ue by simp
  from a aligned_tree_zero_free h(3) h(4) table stb no' rl ue un show ?thesis
    by (intro exI [of _ a] conjI) simp_all
qed


lemma split_sep_none: "c \<notin> set s \<Longrightarrow> split_sep c s = [s]"
  by (induction s) auto

lemma join_sep_last_append:
  "xs \<noteq> [] \<Longrightarrow> join_sep sep xs @ t = join_sep sep (butlast xs @ [last xs @ t])"
  by (induction sep xs rule: join_sep.induct) simp_all

lemma aligned_pack_parts_ok: "\<exists>a. pack_parts aligned_src deflate aligned_tree False = Inr a"
  by (simp add: pack_parts_def sorted_aligned_tree pack_I_def Padding_def aligned_tree_sum
        length_aligned_tree)
     (simp add: aligned_tree_def entry_data_def endswith_slash aligned_src_def
        long_name_def pack_I_def Padding_def)

lemma aligned_files_hi:
  assumes "pack_parts aligned_src deflate aligned_tree False = Inr a"
  shows "filesBinary a = ''hi'' @ zeros 2046"
  unfolding aligned_files [OF assms]
  by (simp add: aligned_tree_def entry_payload_def entry_data_def endswith_slash aligned_src_def
        long_name_def payload_block_Nil)
     (simp add: payload_block_def Padding_def)

lemma aligned_toc:
  "toc_model aligned_src deflate False aligned_tree 0 0x2000
     = map (\<lambda>(no, fo, s). \<lparr>nameOffset = no, fileOffset = fo, uncompressedSize = s,
                            compressedSize = s, filepath = []\<rparr>)
         [(0, 0x2000, 2), (228, 0x2800, 0), (456, 0x2800, 0), (684, 0x2800, 0), (912, 0x2800, 0),
          (1140, 0x2800, 0), (1368, 0x2800, 0), (1596, 0x2800, 0), (1824, 0x2800, 0)]"
  by (simp add: aligned_tree_def entry_payload_def entry_data_def endswith_slash aligned_src_def
        long_name_def Padding_def)


lemma aligned_unpack_entries:
  assumes a: "pack_parts aligned_src deflate aligned_tree False = Inr a"
  shows "unpack_entries (write_archive a)
      = Some (map (\<lambda>(e, p). e\<lparr>filepath := p\<rparr>)
                (zip (toc_model aligned_src deflate False aligned_tree 0 0x2000) decoded_tree))"
    and "fread (write_archive a) 0x2000 2 = []"
proof -
  note stb = aligned_string_table [OF a]
  have AL: "length (stringTableBinary a) mod 0x800 = 0" unfolding stb(2) by simp
  have NE: "aligned_tree \<noteq> []" by (simp add: aligned_tree_def)
  have T: "Padding (length aligned_tree * 16) 0x800 False = 0x800"
    unfolding length_aligned_tree by (simp add: Padding_def)
  have S: "Padding (sum_list (map (\<lambda>path. length path + 1) (sort aligned_tree))) 0x800 False = 0x1000"
    unfolding sorted_aligned_tree aligned_tree_sum by (simp add: Padding_def)
  let ?tm = "toc_model aligned_src deflate False aligned_tree 0 0x2000"
  let ?table = "join_sep [CHR 0x00] decoded_tree @ CHR 0x00 # zeros 2045"
  have z: "zeros 2046 = CHR 0x00 # zeros 2045"
  proof -
    have "(2046::nat) = Suc 2045" by simp
    then show ?thesis unfolding zeros_def by (metis replicate_Suc)
  qed
  have dt: "decoded_tree = butlast aligned_tree @ [last aligned_tree @ ''hi'']"
    by (simp add: decoded_tree_def aligned_tree_def)
  have "fread (write_archive a) (0x800 + 0x800) 0x1000
      = join_sep [CHR 0x00] aligned_tree @ take 0x800 (''hi'' @ zeros 2046)"
    using aligned_table [OF a AL NE, unfolded T, unfolded S] aligned_files_hi [OF a] stb(1)
    by simp
  also have "take 0x800 (''hi'' @ zeros 2046) = ''hi'' @ zeros 2046"
    by (simp add: zeros_def)
  also have "join_sep [CHR 0x00] aligned_tree @ ''hi'' @ zeros 2046
      = (join_sep [CHR 0x00] aligned_tree @ ''hi'') @ zeros 2046"
    by simp
  also have "\<dots> = ?table"
    unfolding join_sep_last_append [OF NE] dt [symmetric] z by simp
  finally have table: "fread (write_archive a) 0x1000 0x1000 = ?table" by simp
  have names_ok: "raw_loop ?table (nameOffset (?tm ! i)) (filepath (?tm ! i)) = Some (decoded_tree ! i)"
    if "i < length ?tm" for i
  proof -
    from that have i: "i < length aligned_tree" by (simp add: length_toc_model)
    then have i9: "i < 9" unfolding length_aligned_tree .
    then have id: "i < length decoded_tree" by (simp add: decoded_tree_def)
    have tk: "take i aligned_tree = take i decoded_tree"
    proof -
      define names8 where "names8 = map (\<lambda>c. long_name c 226) ''12345678''"
      have l: "length names8 = 8" by (simp add: names8_def)
      have t: "aligned_tree = names8 @ [long_name (CHR ''9'') 223]"
        and d: "decoded_tree = names8 @ [long_name (CHR ''9'') 223 @ ''hi'']"
        unfolding aligned_tree_def decoded_tree_def names8_def by (rule refl)+
      from i9 l have "i - length names8 = 0" by simp
      then show ?thesis unfolding t d by simp
    qed
    have "decoded_tree ! i \<in> set decoded_tree" using id by (rule nth_mem)
    then have nz: "CHR 0x00 \<notin> set (decoded_tree ! i)"
      by (auto simp: decoded_tree_def long_name_def)
    show ?thesis
      unfolding toc_model_nth [OF i] tk
      using raw_loop_joined [OF id nz, of "zeros 2045"] by simp
  qed
  have rn: "raw_names ?table ?tm = Some (map (\<lambda>(e, p). e\<lparr>filepath := p\<rparr>) (zip ?tm decoded_tree))"
  proof (rule raw_names_Some)
    show "length decoded_tree = length ?tm"
      by (simp add: length_toc_model length_aligned_tree decoded_tree_def)
    fix i assume "i < length ?tm"
    then show "raw_loop ?table (nameOffset (?tm ! i)) (filepath (?tm ! i)) = Some (decoded_tree ! i)"
      by (rule names_ok)
  qed
  have ue: "unpack_entries (write_archive a)
      = raw_names (fread (write_archive a) 0x1000 0x1000) ?tm"
    using unpack_entries_pack [OF a, unfolded T, unfolded S, unfolded sorted_aligned_tree]
    by simp
  show "unpack_entries (write_archive a)
      = Some (map (\<lambda>(e, p). e\<lparr>filepath := p\<rparr>) (zip ?tm decoded_tree))"
    unfolding ue table by (rule rn)
  have "fread (write_archive a) (0x800 + 0x800 + 0x1000 + 0) 2
      = take 2 (drop (0x800 + 0) (filesBinary a))"
    using aligned_payload [OF a AL NE, unfolded T, unfolded S] .
  then show "fread (write_archive a) 0x2000 2 = []"
    unfolding aligned_files_hi [OF a] by (simp add: zeros_def)
qed


lemma fread_0: "fread f pos 0 = []"
  by (simp add: fread_def)

lemma aligned_extract:
  assumes "fread file 0x2000 2 = []"
  shows "extract_all mem_os inflate file ''out''
           (map (\<lambda>(e, p). e\<lparr>filepath := p\<rparr>)
              (zip (toc_model aligned_src deflate False aligned_tree 0 0x2000) decoded_tree))
           ([''out''], [])
         = (None, ([''out'' @ [CHR 0x5C], ''out''],
                   rev (map (\<lambda>p. (''out'' @ [CHR 0x5C] @ p, [])) decoded_tree)))"
  unfolding aligned_toc decoded_tree_def
  by (simp add: assms fread_0 mem_os_def backslashes_def replace_char_def getDir_def isDir_def
        endswith_slash isCompressed_def long_name_def split_sep_none)


text \<open>
  Claim C1 does not hold of the code for the same nine names when the first file
  holds the two bytes \<open>hi\<close> and the others are empty, packed without compression.
  The header declares a string table of \<open>0x1000\<close> bytes where \<open>0x800\<close> bytes are
  written, so every file offset of the table of contents is \<open>0x800\<close> too large: the
  offset \<open>0x2000\<close> of the first file is the length of the archive and the two bytes
  read there are none.  \<^verbatim>\<open>unpack\<close> into an existing directory \<open>out\<close> returns
  normally, and every file it created is empty, the first one included; the name of
  the last file is followed by the two payload bytes, which the declared length of
  the string table took in.
\<close>

theorem pack_unpack_aligned_tree:
  "\<exists>a. pack_parts aligned_src deflate aligned_tree False = Inr a
     \<and> CHR 0x00 \<notin> set (concat aligned_tree)
     \<and> aligned_src (aligned_tree ! 0) = Some ''hi''
     \<and> read_u32 (write_archive a) 12 = (0x1000, 16)
     \<and> length (stringTableBinary a @ zeros (Padding (length (stringTableBinary a)) 0x800 True))
           = 0x800
     \<and> length (write_archive a) = 0x2000
     \<and> fileOffset (read_entries (write_archive a) 0x800 9 ! 0) = 0x2000
     \<and> compressedSize (read_entries (write_archive a) 0x800 9 ! 0) = 2
     \<and> fread (write_archive a) 0x2000 2 = []
     \<and> unpack mem_os inflate (write_archive a) ''out'' ([''out''], [])
           = Some (None, ([''out'' @ [CHR 0x5C], ''out''],
                          rev (map (\<lambda>p. (''out'' @ [CHR 0x5C] @ p, [])) decoded_tree)))
     \<and> decoded_tree = butlast aligned_tree @ [last aligned_tree @ ''hi'']"
proof -
  from aligned_pack_parts_ok obtain a where
    a: "pack_parts aligned_src deflate aligned_tree False = Inr a" by blast
  note stb = aligned_string_table [OF a]
  have AL: "length (stringTableBinary a) mod 0x800 = 0" unfolding stb(2) by simp
  have NE: "aligned_tree \<noteq> []" by (simp add: aligned_tree_def)
  have T: "Padding (length aligned_tree * 16) 0x800 False = 0x800"
    unfolding length_aligned_tree by (simp add: Padding_def)
  have S: "Padding (sum_list (map (\<lambda>path. length path + 1) (sort aligned_tree))) 0x800 False = 0x1000"
    unfolding sorted_aligned_tree aligned_tree_sum by (simp add: Padding_def)
  note h = header_fields [OF a, unfolded T, unfolded S]
  have src: "aligned_src (aligned_tree ! 0) = Some ''hi''"
    by (simp add: aligned_tree_def aligned_src_def)
  have written: "length (stringTableBinary a @ zeros (Padding (length (stringTableBinary a)) 0x800 True))
      = 0x800"
    unfolding length_padded aligned_declared(3) [OF a AL NE] by (rule stb(2))
  have len: "length (write_archive a) = 0x2000"
    using length_Header [OF a] length_TOC_region [OF a, unfolded T] written
    by (simp add: write_archive_def aligned_files_hi [OF a] zeros_def)
  have re: "read_entries (write_archive a) 0x800 9
      = toc_model aligned_src deflate False aligned_tree 0 0x2000"
    using pack_read_entries [OF a, unfolded T, unfolded S, unfolded sorted_aligned_tree
        length_aligned_tree] by simp
  have fo: "fileOffset (read_entries (write_archive a) 0x800 9 ! 0) = 0x2000"
    and cs: "compressedSize (read_entries (write_archive a) 0x800 9 ! 0) = 2"
    unfolding re aligned_toc by simp_all
  note ue = aligned_unpack_entries [OF a]
  have un: "unpack mem_os inflate (write_archive a) ''out'' ([''out''], [])
           = Some (None, ([''out'' @ [CHR 0x5C], ''out''],
                          rev (map (\<lambda>p. (''out'' @ [CHR 0x5C] @ p, [])) decoded_tree)))"
    unfolding unpack_def ue(1) option.case aligned_extract [OF ue(2)] ..
  have dt: "decoded_tree = butlast aligned_tree @ [last aligned_tree @ ''hi'']"
    by (simp add: decoded_tree_def aligned_tree_def)
  from a aligned_tree_zero_free src h(4) written len fo cs ue(2) un dt show ?thesis
    by (intro exI [of _ a] conjI)
qed

subsection \<open>A payload whose deflated form has the length of the payload\<close>

text \<open>
  Claim C5 does not hold of the code for a file whose deflated form has the length
  of the file.  \<^verbatim>\<open>pack\<close> with compression writes the deflated bytes and records the
  two sizes, which are equal; \<^verbatim>\<open>unpack\<close> takes an entry with equal sizes for one
  that is not compressed, so what it reads at the file offset, and writes to the
  file without inflating, is the deflated form.  This holds for every deflater, for
  every entry of every archive whose joined string table is not a multiple of
  \<open>0x800\<close> bytes long.
\<close>

theorem equal_size_payload:
  assumes P: "pack_parts src deflate names True = Inr a"
    and Z: "\<forall>p\<in>set names. CHR 0x00 \<notin> set p"
    and NS: "length (stringTableBinary a) mod 0x800 \<noteq> 0"
    and i: "i < length names"
    and F: "\<not> endswith (sort names ! i) ''/''"
    and D: "src (sort names ! i) = Some d"
    and E: "length (deflate d) = length d"
  shows "\<exists>es. unpack_entries (write_archive a) = Some es
          \<and> length es = length names
          \<and> filepath (es ! i) = sort names ! i
          \<and> \<not> isDir (es ! i)
          \<and> \<not> isCompressed (es ! i)
          \<and> fread (write_archive a) (fileOffset (es ! i)) (compressedSize (es ! i)) = deflate d"
proof -
  from unpack_pack_entries [OF P Z NS] obtain es where
    ue: "unpack_entries (write_archive a) = Some es" and
    fp: "map filepath es = sort names" and
    each: "\<forall>i<length names.
                fread (write_archive a) (fileOffset (es ! i)) (compressedSize (es ! i))
                  = entry_payload src deflate True (sort names ! i)
                \<and> compressedSize (es ! i)
                  = length (entry_payload src deflate True (sort names ! i))
                \<and> uncompressedSize (es ! i)
                  = (case entry_data src deflate True (sort names ! i) of
                       Inl e \<Rightarrow> 0 | Inr (d, u, c) \<Rightarrow> u)"
    by blast
  have ed: "entry_data src deflate True (sort names ! i) = Inr (deflate d, length d, length (deflate d))"
    using F D by (simp add: entry_data_def)
  then have ep: "entry_payload src deflate True (sort names ! i) = deflate d"
    by (simp add: entry_payload_def)
  from fp have "length (map filepath es) = length (sort names)" by (rule arg_cong)
  then have len: "length es = length names" by simp
  with i have ie: "i < length es" by simp
  have "filepath (es ! i) = map filepath es ! i" using ie by simp
  then have fpi: "filepath (es ! i) = sort names ! i" unfolding fp .
  from each i have
    "fread (write_archive a) (fileOffset (es ! i)) (compressedSize (es ! i))
                  = entry_payload src deflate True (sort names ! i)
                \<and> compressedSize (es ! i)
                  = length (entry_payload src deflate True (sort names ! i))
                \<and> uncompressedSize (es ! i)
                  = (case entry_data src deflate True (sort names ! i) of
                       Inl e \<Rightarrow> 0 | Inr (d, u, c) \<Rightarrow> u)"
    by blast
  then have "fread (write_archive a) (fileOffset (es ! i)) (compressedSize (es ! i)) = deflate d
      \<and> compressedSize (es ! i) = length (deflate d)
      \<and> uncompressedSize (es ! i) = length d"
    unfolding ep ed by auto
  then have
    r: "fread (write_archive a) (fileOffset (es ! i)) (compressedSize (es ! i)) = deflate d" and
    c: "compressedSize (es ! i) = length (deflate d)" and
    u: "uncompressedSize (es ! i) = length d"
    by blast+
  have nd: "\<not> isDir (es ! i)" unfolding isDir_def fpi by (rule F)
  have nc: "\<not> isCompressed (es ! i)" unfolding isCompressed_def c u E by simp
  from ue len fpi nd nc r show ?thesis by blast
qed


text \<open>
  The one file \<open>a.bin\<close> with the content \<open>aaaaa\<close>: the raw deflate stream of zlib
  for these five bytes is the five bytes \<open>4B 4C 04 02 00\<close>.  \<^verbatim>\<open>unpack\<close> returns
  normally and the file it created holds the deflate stream.
\<close>

theorem equal_size_payload_witness:
  "\<exists>a es. pack_parts (\<lambda>p. Some ''aaaaa'') (\<lambda>d. [CHR 0x4B, CHR 0x4C, CHR 0x04, CHR 0x02, CHR 0x00]) [''a.bin''] True = Inr a
     \<and> CHR 0x00 \<notin> set ''a.bin''
     \<and> length (stringTableBinary a) mod 0x800 \<noteq> 0
     \<and> (0::nat) < length [''a.bin'']
     \<and> \<not> endswith (sort [''a.bin''] ! 0) ''/''
     \<and> length [CHR 0x4B, CHR 0x4C, CHR 0x04, CHR 0x02, CHR 0x00] = length ''aaaaa''
     \<and> unpack_entries (write_archive a) = Some es
     \<and> filepath (es ! 0) = ''a.bin''
     \<and> \<not> isCompressed (es ! 0)
     \<and> fread (write_archive a) (fileOffset (es ! 0)) (compressedSize (es ! 0)) = [CHR 0x4B, CHR 0x4C, CHR 0x04, CHR 0x02, CHR 0x00]
     \<and> unpack mem_os (\<lambda>b. if b = [CHR 0x4B, CHR 0x4C, CHR 0x04, CHR 0x02, CHR 0x00] then Some ''aaaaa'' else None) (write_archive a)
           ''out'' ([''out''], [])
         = Some (None, ([''out'' @ [CHR 0x5C], ''out''], [(''out'' @ [CHR 0x5C] @ ''a.bin'', [CHR 0x4B, CHR 0x4C, CHR 0x04, CHR 0x02, CHR 0x00])]))"
proof -
  let ?src = "\<lambda>p::string. Some ''aaaaa''"
  let ?deflate = "\<lambda>d::bytes. [CHR 0x4B, CHR 0x4C, CHR 0x04, CHR 0x02, CHR 0x00]"
  let ?inflate = "\<lambda>b. if b = [CHR 0x4B, CHR 0x4C, CHR 0x04, CHR 0x02, CHR 0x00] then Some ''aaaaa'' else None"
  obtain a where a: "pack_parts ?src ?deflate [''a.bin''] True = Inr a"
    by (simp add: pack_parts_def pack_I_def Padding_def entry_data_def endswith_def)
  from a obtain ba bb bc where stb: "stringTableBinary a = join_sep [CHR 0x00] (sort [''a.bin''])"
    by (rule pack_parts_Inr)
  have Z: "\<forall>p\<in>set [''a.bin'']. CHR 0x00 \<notin> set p" by simp
  have NS: "length (stringTableBinary a) mod 0x800 \<noteq> 0" unfolding stb by simp
  have i: "(0::nat) < length [''a.bin'']" by simp
  have F: "\<not> endswith (sort [''a.bin''] ! 0) ''/''" by (simp add: endswith_def)
  have D: "?src (sort [''a.bin''] ! 0) = Some ''aaaaa''" by simp
  have E: "length (?deflate ''aaaaa'') = length ''aaaaa''" by simp
  from equal_size_payload [of ?src ?deflate "[''a.bin'']" a 0 "''aaaaa''", OF a Z NS i F D E]
  obtain es where
    ue: "unpack_entries (write_archive a) = Some es" and
    len: "length es = 1" and
    fp: "filepath (es ! 0) = ''a.bin''" and
    nd: "\<not> isDir (es ! 0)" and
    nc: "\<not> isCompressed (es ! 0)" and
    r: "fread (write_archive a) (fileOffset (es ! 0)) (compressedSize (es ! 0)) = [CHR 0x4B, CHR 0x4C, CHR 0x04, CHR 0x02, CHR 0x00]"
    by auto
  from len obtain e where es: "es = [e]" by (cases es) simp_all
  note fp' = fp [unfolded es, simplified] and nd' = nd [unfolded es, simplified]
    and nc' = nc [unfolded es, simplified] and r' = r [unfolded es, simplified]
  have "unpack mem_os ?inflate (write_archive a) ''out'' ([''out''], [])
         = Some (None, ([''out'' @ [CHR 0x5C], ''out''], [(''out'' @ [CHR 0x5C] @ ''a.bin'', [CHR 0x4B, CHR 0x4C, CHR 0x04, CHR 0x02, CHR 0x00])]))"
    unfolding unpack_def ue es
    by (simp add: fp' nd' nc' r' mem_os_def backslashes_def replace_char_def getDir_def)
  with a NS F ue fp nc r show ?thesis
    by (intro exI [of _ a] exI [of _ es] conjI) simp_all
qed

end
